theory Spec2Isabelle
  imports Complex_Main "HOL-Library.Sublist"
begin

section \<open>bookModifier.py: filename normalisation, undo ledger and directory comparison\<close>

text \<open>
  The theory embeds the functions of \<^verbatim>\<open>src/bookModifier.py\<close> that rename files and
  compare directories. A Python \<^verbatim>\<open>str\<close> is modelled as a \<^typ>\<open>string\<close>; the model
  covers the code points 0 to 255 (one \<^typ>\<open>char\<close> per code point), and the character
  classes below are Python's Unicode classes on that range.
\<close>

subsection \<open>Characters\<close>

definition code :: "char \<Rightarrow> nat" where
  "code c = of_char c"

text \<open>\<^verbatim>\<open>\s\<close> of a \<^verbatim>\<open>str\<close> pattern: tab to carriage return, the four separators
  28 to 31, space, NEL (133) and the no-break space (160).\<close>

definition is_space :: "char \<Rightarrow> bool" where
  "is_space c = (let n = code c in (9 \<le> n \<and> n \<le> 13) \<or> (28 \<le> n \<and> n \<le> 32) \<or> n = 133 \<or> n = 160)"

definition not_space :: "char \<Rightarrow> bool" where
  "not_space c = (\<not> is_space c)"

text \<open>\<^verbatim>\<open>\d\<close>: the decimal digits.\<close>

definition is_digit :: "char \<Rightarrow> bool" where
  "is_digit c = (let n = code c in 48 \<le> n \<and> n \<le> 57)"

text \<open>\<^verbatim>\<open>[A-Za-z]\<close>.\<close>

definition is_letter :: "char \<Rightarrow> bool" where
  "is_letter c = (let n = code c in (65 \<le> n \<and> n \<le> 90) \<or> (97 \<le> n \<and> n \<le> 122))"

text \<open>\<^verbatim>\<open>\w\<close>: the underscore and every character that \<^verbatim>\<open>str.isalnum\<close> accepts.\<close>

definition is_word :: "char \<Rightarrow> bool" where
  "is_word c = (let n = code c in
     is_digit c \<or> is_letter c \<or> n = 95 \<or> n = 170 \<or> n = 178 \<or> n = 179 \<or> n = 181 \<or> n = 185
     \<or> n = 186 \<or> (188 \<le> n \<and> n \<le> 190) \<or> (192 \<le> n \<and> n \<le> 214) \<or> (216 \<le> n \<and> n \<le> 246)
     \<or> 248 \<le> n)"

text \<open>The dot of a pattern: every character but the line feed.\<close>

definition any_char :: "char \<Rightarrow> bool" where
  "any_char c = (c \<noteq> CHR 0x0A)"

definition is_chr :: "char \<Rightarrow> char \<Rightarrow> bool" where
  "is_chr a c = (c = a)"

text \<open>\<^verbatim>\<open>str.lower\<close>, character by character.\<close>

definition lower_char :: "char \<Rightarrow> char" where
  "lower_char c = (let n = code c in
     if (65 \<le> n \<and> n \<le> 90) \<or> (192 \<le> n \<and> n \<le> 222 \<and> n \<noteq> 215) then char_of (n + 32) else c)"

definition lower :: "string \<Rightarrow> string" where
  "lower s = map lower_char s"

subsection \<open>Regular expressions\<close>

text \<open>
  The patterns of the program are sequences of single characters, greedy and lazy
  repetitions of one character class, and a one-character look-ahead. \<open>mt\<close> is the
  backtracking matcher of \<^verbatim>\<open>re\<close> on such a sequence, anchored at the start of the
  string; it returns what is left of the string after the match it prefers.
\<close>

datatype item =
    One "char \<Rightarrow> bool"
  | Plus "char \<Rightarrow> bool"
  | LazyPlus "char \<Rightarrow> bool"
  | Ahead "char \<Rightarrow> bool"

fun mt :: "item list \<Rightarrow> string \<Rightarrow> string option" where
  "mt [] s = Some s"
| "mt (One P # r) [] = None"
| "mt (One P # r) (c # cs) = (if P c then mt r cs else None)"
| "mt (Plus P # r) [] = None"
| "mt (Plus P # r) (c # cs) =
     (if P c then (case mt (Plus P # r) cs of Some x \<Rightarrow> Some x | None \<Rightarrow> mt r cs) else None)"
| "mt (LazyPlus P # r) [] = None"
| "mt (LazyPlus P # r) (c # cs) =
     (if P c then (case mt r cs of Some x \<Rightarrow> Some x | None \<Rightarrow> mt (LazyPlus P # r) cs) else None)"
| "mt (Ahead P # r) [] = None"
| "mt (Ahead P # r) (c # cs) = (if P c then mt r (c # cs) else None)"

text \<open>\<^verbatim>\<open>re.search\<close>: the leftmost match, as the text before it, the matched text
  and the text after it.\<close>

fun search :: "item list \<Rightarrow> string \<Rightarrow> (string \<times> string \<times> string) option" where
  "search p [] = (case mt p [] of Some rest \<Rightarrow> Some ([], [], rest) | None \<Rightarrow> None)"
| "search p (c # cs) =
     (case mt p (c # cs) of
        Some rest \<Rightarrow> Some ([], take (length (c # cs) - length rest) (c # cs), rest)
      | None \<Rightarrow> (case search p cs of
                   None \<Rightarrow> None
                 | Some (pre, m, post) \<Rightarrow> Some (c # pre, m, post)))"

definition re_search :: "item list \<Rightarrow> string \<Rightarrow> bool" where
  "re_search p s = (search p s \<noteq> None)"

text \<open>\<^verbatim>\<open>re.sub(p, repl, s, 1)\<close>.\<close>

definition sub_first :: "item list \<Rightarrow> string \<Rightarrow> string \<Rightarrow> string" where
  "sub_first p repl s =
     (case search p s of None \<Rightarrow> s | Some (pre, m, post) \<Rightarrow> pre @ repl @ post)"

text \<open>\<^verbatim>\<open>re.sub(p, repl, s)\<close>: every match from left to right. No pattern of the
  program matches the empty string; the branch for an empty match is there to make the
  function total and follows Python (replace, then step over one character).\<close>

fun sub_all :: "item list \<Rightarrow> string \<Rightarrow> string \<Rightarrow> string" where
  "sub_all p repl [] = (case mt p [] of Some rest \<Rightarrow> repl | None \<Rightarrow> [])"
| "sub_all p repl (c # cs) =
     (case mt p (c # cs) of
        Some rest \<Rightarrow>
          (if length rest < length (c # cs) then repl @ sub_all p repl rest
           else repl @ c # sub_all p repl cs)
      | None \<Rightarrow> c # sub_all p repl cs)"

text \<open>A literal piece of a pattern.\<close>

definition lit :: "string \<Rightarrow> item list" where
  "lit s = map (\<lambda>a. One (is_chr a)) s"

subsection \<open>String operations\<close>

fun starts_with :: "string \<Rightarrow> string \<Rightarrow> bool" where
  "starts_with [] s = True"
| "starts_with (x # xs) [] = False"
| "starts_with (x # xs) (c # cs) = (x = c \<and> starts_with xs cs)"

text \<open>\<^verbatim>\<open>sub in s\<close>.\<close>

fun str_in :: "string \<Rightarrow> string \<Rightarrow> bool" where
  "str_in sub [] = (sub = [])"
| "str_in sub (c # cs) = (starts_with sub (c # cs) \<or> str_in sub cs)"

text \<open>\<^verbatim>\<open>s.replace(sub, repl, 1)\<close>.\<close>

fun replace_first :: "string \<Rightarrow> string \<Rightarrow> string \<Rightarrow> string" where
  "replace_first sub repl [] = (if sub = [] then repl else [])"
| "replace_first sub repl (c # cs) =
     (if starts_with sub (c # cs) then repl @ drop (length sub) (c # cs)
      else c # replace_first sub repl cs)"

text \<open>\<^verbatim>\<open>s.replace(sub, repl)\<close>; the program calls it with the non-empty literals
  \<^verbatim>\<open>".kepub"\<close> and \<^verbatim>\<open>".epub"\<close> only.\<close>

fun replace_all :: "string \<Rightarrow> string \<Rightarrow> string \<Rightarrow> string" where
  "replace_all sub repl [] = (if sub = [] then repl else [])"
| "replace_all sub repl (c # cs) =
     (if sub = [] then repl @ c # replace_all sub repl cs
      else if starts_with sub (c # cs) then repl @ replace_all sub repl (drop (length sub) (c # cs))
      else c # replace_all sub repl cs)"

text \<open>\<^verbatim>\<open>s[-n:]\<close> for a positive \<open>n\<close>.\<close>

definition last_n :: "nat \<Rightarrow> string \<Rightarrow> string" where
  "last_n n s = drop (length s - n) s"

subsection \<open>The patterns of the program\<close>

definition chr_comma :: char where "chr_comma = CHR '',''"
definition chr_dot :: char where "chr_dot = CHR ''.''"
definition chr_hyphen :: char where "chr_hyphen = CHR ''-''"
definition chr_underscore :: char where "chr_underscore = CHR ''_''"
definition chr_space :: char where "chr_space = CHR '' ''"
definition chr_apostrophe :: char where "chr_apostrophe = CHR 0x27"

text \<open>\<^verbatim>\<open>\s{2,}\<close>, written as one white-space character followed by one or more.\<close>

definition p_spaces :: "item list" where
  "p_spaces = [One is_space, Plus is_space]"

text \<open>\<^verbatim>\<open>\s,\<close> and \<^verbatim>\<open>,\S\<close> and \<^verbatim>\<open>,\d\<close> and \<^verbatim>\<open>,\<close>.\<close>

definition p_space_comma :: "item list" where
  "p_space_comma = [One is_space, One (is_chr chr_comma)]"

definition p_comma_nonspace :: "item list" where
  "p_comma_nonspace = [One (is_chr chr_comma), One not_space]"

definition p_comma_digit :: "item list" where
  "p_comma_digit = [One (is_chr chr_comma), One is_digit]"

definition p_comma :: "item list" where
  "p_comma = [One (is_chr chr_comma)]"

text \<open>\<^verbatim>\<open>[A-Za-z]_[A-Za-z]\<close>.\<close>

definition p_letter_underscore_letter :: "item list" where
  "p_letter_underscore_letter = [One is_letter, One (is_chr chr_underscore), One is_letter]"

text \<open>\<^verbatim>\<open>\s-\s\<close>.\<close>

definition p_separator :: "item list" where
  "p_separator = [One is_space, One (is_chr chr_hyphen), One is_space]"

text \<open>\<^verbatim>\<open>pattern1 = .+?\s-\s\<close> (the authors) and
  \<^verbatim>\<open>pattern2 = _+\s.+(?=\.)\<close> (the subtitle).\<close>

definition pattern1 :: "item list" where
  "pattern1 = LazyPlus any_char # p_separator"

definition pattern2 :: "item list" where
  "pattern2 = [Plus (is_chr chr_underscore), One is_space, Plus any_char, Ahead (is_chr chr_dot)]"

text \<open>\<^verbatim>\<open>.+(, A)\.\<close> and \<^verbatim>\<open>,\sA\.\<close> for an article \<open>a\<close>.\<close>

definition p_article_end :: "string \<Rightarrow> item list" where
  "p_article_end a = Plus any_char # lit ('', '' @ a) @ [One (is_chr chr_dot)]"

definition p_article_cut :: "string \<Rightarrow> item list" where
  "p_article_cut a = One (is_chr chr_comma) # One is_space # lit a @ [One (is_chr chr_dot)]"

text \<open>\<^verbatim>\<open>\.\w+\<close> and \<^verbatim>\<open>.+\.\<close>.\<close>

definition p_extension :: "item list" where
  "p_extension = [One (is_chr chr_dot), Plus is_word]"

definition p_up_to_dot :: "item list" where
  "p_up_to_dot = [Plus any_char, One (is_chr chr_dot)]"

text \<open>The test on the extension that most functions make:
  \<^verbatim>\<open>re.search(r"\.epub", s.lower()) or re.search(r"\.mobi", s.lower()) or
  re.search(r"\.pdf", s.lower())\<close>.\<close>

definition has_book_ext :: "string \<Rightarrow> bool" where
  "has_book_ext s =
     (re_search (lit ''.epub'') (lower s) \<or> re_search (lit ''.mobi'') (lower s)
      \<or> re_search (lit ''.pdf'') (lower s))"

text \<open>\<^verbatim>\<open>re.sub(r"\.\w+", "", book)\<close>, the name without extension.\<close>

definition base_name :: "string \<Rightarrow> string" where
  "base_name book = sub_all p_extension [] book"

subsection \<open>The session: directory, undo ledger, console\<close>

text \<open>
  Every function works on the files of one directory \<^verbatim>\<open>path\<close>, so a file is
  identified by its name and the directory is the set of names in it. \<^verbatim>\<open>undo\<close> is
  a Python dictionary from new name to old name; it is an association list in insertion
  order, which is the order \<^verbatim>\<open>undo.items()\<close> iterates in. \<open>stdin\<close> holds the lines
  that \<^verbatim>\<open>input()\<close> will return, \<open>out\<close> what was printed.
\<close>

datatype error = IndexError | FileNotFoundError | FileExistsError | UnboundLocalError | EOFError

datatype msg =
    SpacingRemoved string string
  | CommaFixed string string
  | ChangedTo string string
  | NotRenamed string
  | AuthorsNotFound string
  | NoSubstring string string
  | NothingToRestore
  | NotFoundIn string
  | Finished nat

record session =
  files :: "string set"
  undo :: "(string \<times> string) list"
  stdin :: "string list"
  out :: "msg list"

type_synonym outcome = "(error \<times> session) + session"

text \<open>The session an operation leaves behind, whether it returned or raised.\<close>

definition final :: "outcome \<Rightarrow> session" where
  "final r = (case r of Inl (e, s) \<Rightarrow> s | Inr s \<Rightarrow> s)"

text \<open>\<^verbatim>\<open>undo[k] = v\<close>: an existing key keeps its place, a new one goes to the end.\<close>

fun dict_set :: "'k \<Rightarrow> 'v \<Rightarrow> ('k \<times> 'v) list \<Rightarrow> ('k \<times> 'v) list" where
  "dict_set k v [] = [(k, v)]"
| "dict_set k v (p # ps) = (if fst p = k then (k, v) # ps else p # dict_set k v ps)"

text \<open>
  \<^verbatim>\<open>os.rename(path + src, path + dst)\<close> on Windows, the system the program is
  written for (it ends paths with a backslash and handles \<^verbatim>\<open>FileExistsError\<close>): a
  missing source raises \<^verbatim>\<open>FileNotFoundError\<close>, an existing other destination raises
  \<^verbatim>\<open>FileExistsError\<close>.
\<close>

definition os_rename :: "string \<Rightarrow> string \<Rightarrow> session \<Rightarrow> outcome" where
  "os_rename src dst s =
     (if src \<notin> files s then Inl (FileNotFoundError, s)
      else if dst \<in> files s \<and> dst \<noteq> src then Inl (FileExistsError, s)
      else Inr (s\<lparr>files := insert dst (files s - {src})\<rparr>))"

definition say :: "msg \<Rightarrow> session \<Rightarrow> session" where
  "say m s = s\<lparr>out := out s @ [m]\<rparr>"

definition record_undo :: "string \<Rightarrow> string \<Rightarrow> session \<Rightarrow> session" where
  "record_undo new old s = s\<lparr>undo := dict_set new old (undo s)\<rparr>"

subsection \<open>removeMultipleSpacing\<close>

text \<open>
  The two inner \<^verbatim>\<open>while True\<close> loops: while \<^verbatim>\<open>book[-k]\<close> is a space, drop that
  character (\<^verbatim>\<open>book[:-k] + book[-(k-1):]\<close>) and set \<^verbatim>\<open>spacing\<close>. \<^verbatim>\<open>book[-k]\<close>
  raises \<^verbatim>\<open>IndexError\<close> on a name shorter than \<open>k\<close>. The program uses \<open>k = 6\<close> and
  \<open>k = 5\<close>.
\<close>

function strip_end :: "nat \<Rightarrow> string \<Rightarrow> bool \<Rightarrow> error + (string \<times> bool)" where
  "strip_end k book spacing =
     (if k = 0 \<or> length book < k then Inl IndexError
      else if book ! (length book - k) = chr_space
      then strip_end k (take (length book - k) book @ drop (length book - k + 1) book) True
      else Inr (book, spacing))"
  by pat_completeness auto
termination
  by (relation "measure (\<lambda>(k, book, spacing). length book)") auto

text \<open>One pass of the \<^verbatim>\<open>for\<close> loop: the name after the end-spacing loops, then the
  collapse of runs of white space with its rename, then the ledger and the counter.\<close>

definition end_spacing :: "string \<Rightarrow> error + (string \<times> bool)" where
  "end_spacing book =
     (if str_in ''.epub'' (lower book) \<or> str_in ''.mobi'' (lower book) then strip_end 6 book False
      else if str_in ''.pdf'' (lower book) then strip_end 5 book False
      else Inr (book, False))"

fun removeMultipleSpacing_loop :: "string list \<Rightarrow> nat \<Rightarrow> session \<Rightarrow> outcome" where
  "removeMultipleSpacing_loop [] counter s = Inr (say (Finished counter) s)"
| "removeMultipleSpacing_loop (old # books) counter s =
     (case end_spacing old of
        Inl e \<Rightarrow> Inl (e, s)
      | Inr (book, spacing) \<Rightarrow>
          if re_search p_spaces book
          then (case os_rename old (sub_all p_spaces '' '' book) s of
                  Inl e \<Rightarrow> Inl e
                | Inr s1 \<Rightarrow>
                    removeMultipleSpacing_loop books (counter + 1)
                      (say (SpacingRemoved old (sub_all p_spaces '' '' book))
                        (record_undo (sub_all p_spaces '' '' book) old s1)))
          else if spacing
          then removeMultipleSpacing_loop books (counter + 1)
                 (say (SpacingRemoved old book) (record_undo book old s))
          else removeMultipleSpacing_loop books counter s)"

definition removeMultipleSpacing :: "string list \<Rightarrow> session \<Rightarrow> outcome" where
  "removeMultipleSpacing books s = removeMultipleSpacing_loop books 0 (s\<lparr>undo := []\<rparr>)"

subsection \<open>fixCommaSpacing\<close>

fun fixCommaSpacing_loop :: "string list \<Rightarrow> nat \<Rightarrow> session \<Rightarrow> outcome" where
  "fixCommaSpacing_loop [] counter s = Inr (say (Finished counter) s)"
| "fixCommaSpacing_loop (old # books) counter s =
     (case (if re_search p_space_comma old
            then (case os_rename old (sub_all p_space_comma '','' old) s of
                    Inl e \<Rightarrow> Inl e
                  | Inr s1 \<Rightarrow> Inr (sub_all p_space_comma '','' old, True, s1))
            else Inr (old, False, s)) of
        Inl e \<Rightarrow> Inl e
      | Inr (book, changed, s1) \<Rightarrow>
          (case (if re_search p_comma_nonspace book \<and> \<not> re_search p_comma_digit book
                 then (case os_rename old (sub_all p_comma '', '' book) s1 of
                         Inl e \<Rightarrow> Inl e
                       | Inr s2 \<Rightarrow> Inr (sub_all p_comma '', '' book, True, s2))
                 else Inr (book, changed, s1)) of
             Inl e \<Rightarrow> Inl e
           | Inr (book2, changed2, s2) \<Rightarrow>
               if changed2
               then fixCommaSpacing_loop books (counter + 1)
                      (say (CommaFixed old book2) (record_undo book2 old s2))
               else fixCommaSpacing_loop books counter s2))"

definition fixCommaSpacing :: "string list \<Rightarrow> session \<Rightarrow> outcome" where
  "fixCommaSpacing books s = fixCommaSpacing_loop books 0 (s\<lparr>undo := []\<rparr>)"

text \<open>The name that \<^verbatim>\<open>fixCommaSpacing\<close> computes for a file, without the renames.\<close>

definition comma_name :: "string \<Rightarrow> string" where
  "comma_name old =
     (let book = (if re_search p_space_comma old then sub_all p_space_comma '','' old else old)
      in if re_search p_comma_nonspace book \<and> \<not> re_search p_comma_digit book
         then sub_all p_comma '', '' book else book)"

subsection \<open>fixApostrophes\<close>

text \<open>\<^verbatim>\<open>re.sub(r"(?<=[A-Za-z])_(?=[A-Za-z])", "'", book)\<close>: the look-behind reads the
  character before the underscore in the name as it was, so the function carries it.\<close>

fun apostrophes :: "char option \<Rightarrow> string \<Rightarrow> string" where
  "apostrophes prev [] = []"
| "apostrophes prev (c # cs) =
     (if c = chr_underscore
         \<and> (case prev of None \<Rightarrow> False | Some p \<Rightarrow> is_letter p)
         \<and> (case cs of [] \<Rightarrow> False | d # ds \<Rightarrow> is_letter d)
      then chr_apostrophe # apostrophes (Some c) cs
      else c # apostrophes (Some c) cs)"

fun fixApostrophes_loop :: "string list \<Rightarrow> nat \<Rightarrow> session \<Rightarrow> outcome" where
  "fixApostrophes_loop [] counter s = Inr (say (Finished counter) s)"
| "fixApostrophes_loop (old # books) counter s =
     (if re_search p_letter_underscore_letter old
      then (case os_rename old (apostrophes None old) s of
              Inl e \<Rightarrow> Inl e
            | Inr s1 \<Rightarrow>
                fixApostrophes_loop books (counter + 1)
                  (say (ChangedTo old (apostrophes None old))
                    (record_undo (apostrophes None old) old s1)))
      else fixApostrophes_loop books counter s)"

definition fixApostrophes :: "string list \<Rightarrow> session \<Rightarrow> outcome" where
  "fixApostrophes books s = fixApostrophes_loop books 0 (s\<lparr>undo := []\<rparr>)"

subsection \<open>withoutAuthors\<close>

text \<open>\<^verbatim>\<open>re.search(r".+(, A)\.", name[-n:])\<close> and \<^verbatim>\<open>re.sub(",\sA\.", ".", name)\<close>
  for an article \<open>a\<close>.\<close>

definition article_at_end :: "string \<Rightarrow> nat \<Rightarrow> string \<Rightarrow> bool" where
  "article_at_end a n name = re_search (p_article_end a) (last_n n name)"

definition cut_article :: "string \<Rightarrow> string \<Rightarrow> string" where
  "cut_article a name = sub_all (p_article_cut a) ''.'' name"

text \<open>\<^verbatim>\<open>noauthor = re.sub(pattern1, "", book, 1)\<close>, and the \<^verbatim>\<open>if\<close> chain that
  gives \<^verbatim>\<open>new\<close> from it.\<close>

definition noauthor_of :: "string \<Rightarrow> string" where
  "noauthor_of book = sub_first pattern1 [] book"

definition title_of :: "string \<Rightarrow> string" where
  "title_of noauthor =
     (if article_at_end ''A'' 9 noauthor
      then ''A '' @ sub_first pattern2 [] (cut_article ''A'' noauthor)
      else if article_at_end ''An'' 10 noauthor
      then ''An '' @ sub_first pattern2 [] (cut_article ''An'' noauthor)
      else if article_at_end ''The'' 11 noauthor
      then ''The '' @ sub_first pattern2 [] (cut_article ''The'' noauthor)
      else sub_first pattern2 [] noauthor)"

fun withoutAuthors_loop :: "string list \<Rightarrow> session \<Rightarrow> outcome" where
  "withoutAuthors_loop [] s = Inr s"
| "withoutAuthors_loop (old # books) s =
     (case os_rename old (noauthor_of old) s of
        Inl e \<Rightarrow> Inl e
      | Inr s1 \<Rightarrow>
          (case os_rename (noauthor_of old) (title_of (noauthor_of old)) s1 of
             Inl e \<Rightarrow> Inl e
           | Inr s2 \<Rightarrow>
               if title_of (noauthor_of old) = [] then Inl (IndexError, s2)
               else if last (title_of (noauthor_of old)) = chr_underscore
               then (case os_rename (title_of (noauthor_of old))
                            (butlast (title_of (noauthor_of old))) s2 of
                       Inl e \<Rightarrow> Inl e
                     | Inr s3 \<Rightarrow>
                         withoutAuthors_loop books
                           (say (ChangedTo old (butlast (title_of (noauthor_of old))))
                             (record_undo (butlast (title_of (noauthor_of old))) old s3)))
               else withoutAuthors_loop books
                      (say (ChangedTo old (title_of (noauthor_of old)))
                        (record_undo (title_of (noauthor_of old)) old s2))))"

definition withoutAuthors :: "string list \<Rightarrow> session \<Rightarrow> outcome" where
  "withoutAuthors books s = withoutAuthors_loop books (s\<lparr>undo := []\<rparr>)"

text \<open>The value of \<^verbatim>\<open>new\<close> that \<^verbatim>\<open>withoutAuthors\<close> stores in the ledger for a
  file, without the renames; \<^verbatim>\<open>new[-1]\<close> raises on an empty name.\<close>

definition strip_to_title :: "string \<Rightarrow> error + string" where
  "strip_to_title book =
     (let new = title_of (noauthor_of book)
      in if new = [] then Inl IndexError
         else if last new = chr_underscore then Inr (butlast new)
         else Inr new)"

subsection \<open>withAuthors and renameBook\<close>

text \<open>The branches of \<^verbatim>\<open>renameBook\<close> in the order of the source, each with the
  length of the slice it tests.\<close>

definition articles :: "(string \<times> nat) list" where
  "articles =
     [(''A'', 9), (''An'', 10), (''The'', 11),
      (''El'', 10), (''La'', 10), (''Los'', 11), (''Las'', 11), (''Un'', 10), (''Una'', 11),
      (''Unos'', 12), (''Unas'', 12),
      (''Le'', 10), (''L'' @ [chr_apostrophe], 10), (''Les'', 11), (''Une'', 11), (''Des'', 11),
      (''Der'', 11), (''Die'', 11), (''Das'', 11), (''Ein'', 11), (''Eine'', 12)]"

fun renameBook_chain :: "(string \<times> nat) list \<Rightarrow> string \<Rightarrow> string" where
  "renameBook_chain [] book = sub_first pattern2 [] book"
| "renameBook_chain ((a, n) # rest) book =
     (if article_at_end a n book
      then sub_first p_separator ('' - '' @ a @ '' '') (sub_first pattern2 [] (cut_article a book))
      else renameBook_chain rest book)"

definition renameBook :: "string \<Rightarrow> string" where
  "renameBook book = renameBook_chain articles book"

text \<open>The first loop fills the dictionary \<^verbatim>\<open>to_rename\<close>.\<close>

definition proposed_name :: "string \<Rightarrow> string" where
  "proposed_name book =
     (if str_in ''.kepub'' book
      then replace_all ''.epub'' ''.kepub.epub'' (renameBook (replace_all ''.kepub'' [] book))
      else renameBook book)"

fun to_rename_of :: "string list \<Rightarrow> (string \<times> string) list \<Rightarrow> (string \<times> string) list" where
  "to_rename_of [] d = d"
| "to_rename_of (book # books) d = to_rename_of books (dict_set book (proposed_name book) d)"

text \<open>The \<^verbatim>\<open>while True\<close> loop that asks until the answer is one of n, N, o, O; the
  result is the answer and the input that is left, or nothing when the input ends.\<close>

fun ask_exists :: "string list \<Rightarrow> (string \<times> string list) option" where
  "ask_exists [] = None"
| "ask_exists (x # xs) =
     (if x \<in> {''n'', ''N'', ''o'', ''O''} then Some (x, xs) else ask_exists xs)"

fun withAuthors_loop :: "(string \<times> string) list \<Rightarrow> session \<Rightarrow> outcome" where
  "withAuthors_loop [] s = Inr s"
| "withAuthors_loop ((old, new) # rest) s =
     (if new = [] then Inl (IndexError, s)
      else if last new = chr_underscore
      then (case os_rename old (butlast new) (record_undo (butlast new) old s) of
              Inl e \<Rightarrow> Inl e
            | Inr s1 \<Rightarrow> withAuthors_loop rest (say (ChangedTo old (butlast new)) s1))
      else (case os_rename old new (record_undo new old s) of
              Inr s1 \<Rightarrow> withAuthors_loop rest (say (ChangedTo old new) s1)
            | Inl (e, s1) \<Rightarrow>
                if e \<noteq> FileExistsError then Inl (e, s1)
                else (case ask_exists (stdin s1) of
                        None \<Rightarrow> Inl (EOFError, s1\<lparr>stdin := []\<rparr>)
                      | Some (answer, inputs) \<Rightarrow>
                          if answer \<in> {''n'', ''N''}
                          then (case inputs of
                                  [] \<Rightarrow> Inl (EOFError, s1\<lparr>stdin := []\<rparr>)
                                | new2 # inputs2 \<Rightarrow>
                                    (case os_rename old new2
                                            (record_undo new2 old (s1\<lparr>stdin := inputs2\<rparr>)) of
                                       Inl e2 \<Rightarrow> Inl e2
                                     | Inr s2 \<Rightarrow>
                                         withAuthors_loop rest (say (ChangedTo old new2) s2)))
                          else withAuthors_loop rest
                                 (say (NotRenamed old) (s1\<lparr>stdin := inputs\<rparr>)))))"

definition withAuthors :: "string list \<Rightarrow> session \<Rightarrow> outcome" where
  "withAuthors books s =
     (case withAuthors_loop (to_rename_of books []) (s\<lparr>undo := []\<rparr>) of
        Inl e \<Rightarrow> Inl e
      | Inr s1 \<Rightarrow> Inr (say (Finished (length (to_rename_of books []))) s1))"

subsection \<open>restoreAuthors\<close>

text \<open>
  \<^verbatim>\<open>re.findall\<close> is used for its first element and for being empty or not, so the
  model keeps the first match only. \<^verbatim>\<open>title1\<close> is the group of \<^verbatim>\<open>(.+)\.\<close>,
  \<^verbatim>\<open>extension1\<close> the group of \<^verbatim>\<open>\.(\w+)\<close>, \<^verbatim>\<open>title2\<close> the group of
  \<^verbatim>\<open>\s-\s(.+)\.\<close>; the parts of these patterns outside the group have a fixed
  length, which is cut off the matched text.
\<close>

definition first_match :: "item list \<Rightarrow> string \<Rightarrow> string option" where
  "first_match p s = (case search p s of None \<Rightarrow> None | Some (pre, m, post) \<Rightarrow> Some m)"

definition title1_of :: "string \<Rightarrow> string option" where
  "title1_of book1 = map_option butlast (first_match p_up_to_dot book1)"

definition extension1_of :: "string \<Rightarrow> string option" where
  "extension1_of book1 = map_option tl (first_match p_extension book1)"

definition title2_of :: "string \<Rightarrow> string option" where
  "title2_of book2 =
     map_option (\<lambda>m. drop 3 (butlast m)) (first_match (p_separator @ p_up_to_dot) book2)"

text \<open>
  The inner loop over \<^verbatim>\<open>books2\<close>. The variable \<^verbatim>\<open>title2\<close> is assigned only when
  \<^verbatim>\<open>book1\<close> has a book extension; otherwise it keeps its last value, and reading it
  before any assignment raises \<^verbatim>\<open>UnboundLocalError\<close>. The argument \<open>title2\<close> is
  \<open>None\<close> while the variable is unbound. The result says whether the loop ended by
  \<^verbatim>\<open>break\<close>.
\<close>

fun restoreAuthors_inner ::
  "string \<Rightarrow> string list \<Rightarrow> string option option \<Rightarrow> nat \<Rightarrow> session
     \<Rightarrow> (error \<times> session) + (bool \<times> string option option \<times> nat \<times> session)" where
  "restoreAuthors_inner book1 [] title2 counter s = Inr (False, title2, counter, s)"
| "restoreAuthors_inner book1 (book2 # rest) title2 counter s =
     (case (if has_book_ext book1 then Some (title2_of book2) else title2) of
        None \<Rightarrow> Inl (UnboundLocalError, s)
      | Some None \<Rightarrow> restoreAuthors_inner book1 rest (Some None) counter s
      | Some (Some t2) \<Rightarrow>
          (case title1_of book1 of
             None \<Rightarrow> Inl (IndexError, s)
           | Some t1 \<Rightarrow>
               if t1 = t2
               then (case first_match p_up_to_dot book2 of
                       None \<Rightarrow> Inl (IndexError, s)
                     | Some stem \<Rightarrow>
                         (case extension1_of book1 of
                            None \<Rightarrow> Inl (IndexError, s)
                          | Some ext \<Rightarrow>
                              (case os_rename book1 (stem @ ext) s of
                                 Inl e \<Rightarrow> Inl e
                               | Inr s1 \<Rightarrow>
                                   Inr (True, Some (Some t2), counter + 1,
                                        say (ChangedTo book1 (stem @ ext))
                                          (record_undo (stem @ ext) book1 s1)))))
               else restoreAuthors_inner book1 rest (Some (Some t2)) counter s))"

text \<open>The outer loop; the line \<^verbatim>\<open>print("Author(s) data not found for", book1)\<close>
  stands after the inner loop, at the level of the outer loop's body.\<close>

fun restoreAuthors_loop ::
  "string list \<Rightarrow> string list \<Rightarrow> string option option \<Rightarrow> nat \<Rightarrow> session \<Rightarrow> outcome" where
  "restoreAuthors_loop books2 [] title2 counter s = Inr (say (Finished counter) s)"
| "restoreAuthors_loop books2 (book1 # books) title2 counter s =
     (case restoreAuthors_inner book1 books2 title2 counter s of
        Inl e \<Rightarrow> Inl e
      | Inr (broke, title2', counter', s1) \<Rightarrow>
          restoreAuthors_loop books2 books title2' counter' (say (AuthorsNotFound book1) s1))"

text \<open>\<open>listdir\<close> is \<^verbatim>\<open>os.listdir\<close> on the path that the user enters: the listing of
  a directory, or nothing where there is no such directory.\<close>

definition restoreAuthors ::
  "(string \<Rightarrow> string list option) \<Rightarrow> string list \<Rightarrow> session \<Rightarrow> outcome" where
  "restoreAuthors listdir books s =
     (case stdin s of
        [] \<Rightarrow> Inl (EOFError, s\<lparr>undo := []\<rparr>)
      | path2 # inputs \<Rightarrow>
          (case listdir path2 of
             None \<Rightarrow> Inl (FileNotFoundError, s\<lparr>undo := [], stdin := inputs\<rparr>)
           | Some books2 \<Rightarrow>
               restoreAuthors_loop books2 books None 0 (s\<lparr>undo := [], stdin := inputs\<rparr>)))"

subsection \<open>removeSubstring\<close>

fun removeSubstring_loop :: "string \<Rightarrow> string list \<Rightarrow> nat \<Rightarrow> session \<Rightarrow> outcome" where
  "removeSubstring_loop substring [] counter s = Inr (say (Finished counter) s)"
| "removeSubstring_loop substring (book # books) counter s =
     (if str_in substring book
      then (case os_rename book (replace_first substring [] book) s of
              Inl e \<Rightarrow> Inl e
            | Inr s1 \<Rightarrow>
                removeSubstring_loop substring books (counter + 1)
                  (say (ChangedTo book (replace_first substring [] book))
                    (record_undo (replace_first substring [] book) book s1)))
      else removeSubstring_loop substring books counter (say (NoSubstring book substring) s))"

definition removeSubstring :: "string list \<Rightarrow> session \<Rightarrow> outcome" where
  "removeSubstring books s =
     (case stdin s of
        [] \<Rightarrow> Inl (EOFError, s\<lparr>undo := []\<rparr>)
      | substring # inputs \<Rightarrow>
          removeSubstring_loop substring books 0 (s\<lparr>undo := [], stdin := inputs\<rparr>))"

subsection \<open>restoreOld\<close>



subsection \<open>compareTwoDirs\<close>

text \<open>
  \<^verbatim>\<open>difflib.SequenceMatcher(None, a, b).quick_ratio()\<close> of the Python standard
  library counts, for each character of \<open>a\<close> in turn, whether \<open>b\<close> still has an unused
  copy of it, and returns \<^verbatim>\<open>2.0 * matches / (len(a) + len(b))\<close>, or \<^verbatim>\<open>1.0\<close> when
  both are empty. The quotient is a rational number here; the program compares it with
  \<^verbatim>\<open>1\<close> and \<^verbatim>\<open>0.9\<close>, and on names of any realistic length the rounded quotient
  compares with these two constants as the exact one does.
\<close>

fun matches :: "string \<Rightarrow> string \<Rightarrow> nat" where
  "matches [] b = 0"
| "matches (x # a) b = (if x \<in> set b then Suc (matches a (remove1 x b)) else matches a b)"

definition quick_ratio :: "string \<Rightarrow> string \<Rightarrow> rat" where
  "quick_ratio a b =
     (if length a + length b = 0 then 1
      else of_nat (2 * matches a b) / of_nat (length a + length b))"

text \<open>The inner loop over \<^verbatim>\<open>books2\<close> for one \<^verbatim>\<open>b1\<close>; it carries the lists
  \<^verbatim>\<open>identical\<close> and \<^verbatim>\<open>similar\<close> and the flag \<^verbatim>\<open>not_found\<close>.\<close>

fun compareTwoDirs_inner ::
  "string \<Rightarrow> string list \<Rightarrow> string list \<Rightarrow> (string \<times> string) list \<Rightarrow> bool
     \<Rightarrow> string list \<times> (string \<times> string) list \<times> bool" where
  "compareTwoDirs_inner b1 [] identical similar not_found = (identical, similar, not_found)"
| "compareTwoDirs_inner b1 (book2 # rest) identical similar not_found =
     (if has_book_ext book2
      then (if quick_ratio b1 (base_name book2) = 1 then (identical @ [b1], similar, False)
            else if quick_ratio b1 (base_name book2) \<ge> 9 / 10
            then compareTwoDirs_inner b1 rest identical (similar @ [(b1, base_name book2)]) False
            else compareTwoDirs_inner b1 rest identical similar not_found)
      else compareTwoDirs_inner b1 rest identical similar not_found)"

fun compareTwoDirs_loop ::
  "string list \<Rightarrow> string list \<Rightarrow> string list \<Rightarrow> (string \<times> string) list \<Rightarrow> string list
     \<Rightarrow> string list \<times> (string \<times> string) list \<times> string list" where
  "compareTwoDirs_loop books2 [] identical similar different = (identical, similar, different)"
| "compareTwoDirs_loop books2 (book1 # books) identical similar different =
     (if has_book_ext book1
      then (case compareTwoDirs_inner (base_name book1) books2 identical similar True of
              (identical', similar', not_found) \<Rightarrow>
                compareTwoDirs_loop books2 books identical' similar'
                  (if not_found then different @ [base_name book1] else different))
      else compareTwoDirs_loop books2 books identical similar different)"

text \<open>The three lists that \<^verbatim>\<open>compareTwoDirs\<close> prints, for the listing \<open>books2\<close> of
  the second directory.\<close>

definition compareTwoDirs ::
  "string list \<Rightarrow> string list \<Rightarrow> string list \<times> (string \<times> string) list \<times> string list" where
  "compareTwoDirs books2 books = compareTwoDirs_loop books2 books [] [] []"

subsection \<open>compareSize\<close>

text \<open>\<^verbatim>\<open>a < b\<close> on \<^verbatim>\<open>str\<close>: lexicographic on code points.\<close>

fun str_less :: "string \<Rightarrow> string \<Rightarrow> bool" where
  "str_less [] [] = False"
| "str_less [] (y # ys) = True"
| "str_less (x # xs) [] = False"
| "str_less (x # xs) (y # ys) = (code x < code y \<or> (x = y \<and> str_less xs ys))"

text \<open>\<^verbatim>\<open>xs[i]\<close> with Python's negative indices.\<close>

definition py_index :: "'a list \<Rightarrow> int \<Rightarrow> 'a option" where
  "py_index xs i =
     (if 0 \<le> i \<and> i < int (length xs) then Some (xs ! nat i)
      else if - int (length xs) \<le> i \<and> i < 0 then Some (xs ! nat (int (length xs) + i))
      else None)"

text \<open>
  \<^verbatim>\<open>share\<close> is a Python \<^verbatim>\<open>float\<close>, an IEEE double. The input loop of
  \<^verbatim>\<open>compareSize\<close> accepts it only when \<^verbatim>\<open>share >= 0 and share <= 1\<close>, so it is
  finite and not negative: a pair \<open>(m, e)\<close> stands for the double \<open>m * 2 ^ e\<close>, with
  \<open>m\<close> below \<open>2 ^ 53\<close> and \<open>e\<close> from \<open>- 1074\<close> on. \<open>1.0\<close> is \<open>(1, 0)\<close>, \<open>0.5\<close> is
  \<open>(1, - 1)\<close>, \<open>0.7\<close> is \<open>(3152519739159347, - 52)\<close> and \<open>0.07\<close> is
  \<open>(1261007895663739, - 54)\<close>.

  \<open>bit_length\<close> is \<^verbatim>\<open>int.bit_length\<close>. \<open>round_half_even m k\<close> is \<open>m / 2 ^ k\<close> rounded
  to the nearest integer, a tie to the even one. \<open>fl_round\<close> rounds \<open>m * 2 ^ e\<close> to 53
  binary digits, which is what the conversion of an \<^verbatim>\<open>int\<close> to a \<^verbatim>\<open>float\<close> and the
  multiplication of two doubles do to the exact value. A file size is far below
  \<open>2 ^ 1024\<close> and the share is at most 1, so no product overflows; the exponent of a
  product is that of the share or above, so none falls below the smallest exponent.
\<close>

function bit_length :: "int \<Rightarrow> nat" where
  "bit_length n = (if n \<le> 0 then 0 else Suc (bit_length (n div 2)))"
  by pat_completeness auto
termination
  by (relation "measure nat") auto

declare bit_length.simps [simp del]

definition round_half_even :: "int \<Rightarrow> nat \<Rightarrow> int" where
  "round_half_even m k =
     (if 2 * (m mod 2 ^ k) > 2 ^ k \<or> (2 * (m mod 2 ^ k) = 2 ^ k \<and> odd (m div 2 ^ k))
      then m div 2 ^ k + 1 else m div 2 ^ k)"

definition fl_round :: "int \<times> int \<Rightarrow> int \<times> int" where
  "fl_round x =
     (round_half_even (fst x) (bit_length (fst x) - 53), snd x + int (bit_length (fst x) - 53))"

text \<open>\<^verbatim>\<open>float(n)\<close> for an \<^verbatim>\<open>int\<close>, and \<^verbatim>\<open>x * y\<close> for two doubles.\<close>

definition fl_of_nat :: "nat \<Rightarrow> int \<times> int" where
  "fl_of_nat n = fl_round (int n, 0)"

definition fl_mul :: "int \<times> int \<Rightarrow> int \<times> int \<Rightarrow> int \<times> int" where
  "fl_mul x y = fl_round (fst x * fst y, snd x + snd y)"

text \<open>\<^verbatim>\<open>d >= x\<close> for an \<^verbatim>\<open>int\<close> \<open>d\<close> and a double \<open>x\<close>: Python compares the two
  exact values.\<close>

definition int_ge_fl :: "int \<Rightarrow> int \<times> int \<Rightarrow> bool" where
  "int_ge_fl d x =
     (if 0 \<le> snd x then fst x * 2 ^ nat (snd x) \<le> d else fst x \<le> d * 2 ^ nat (- snd x))"

text \<open>\<^verbatim>\<open>size1 > size2 and size1 - size2 >= size1 * share\<close>: in \<^verbatim>\<open>size1 * share\<close> the
  size is converted to a double and the product is rounded.\<close>

definition larger_by_share :: "nat \<Rightarrow> nat \<Rightarrow> int \<times> int \<Rightarrow> bool" where
  "larger_by_share size1 size2 share =
     (size1 > size2
      \<and> int_ge_fl (int size1 - int size2) (fl_mul (fl_of_nat size1) share))"

text \<open>
  The \<^verbatim>\<open>while True\<close> loop of \<^verbatim>\<open>compareSize\<close> for one \<^verbatim>\<open>book1\<close>, with
  \<^verbatim>\<open>b1\<close> its lower-case base name. \<open>lo\<close> and \<open>hi\<close> are \<^verbatim>\<open>lower\<close> and
  \<^verbatim>\<open>upper\<close>. The variable \<^verbatim>\<open>b2\<close> is assigned only for an entry with a book
  extension; the two \<^verbatim>\<open>elif b1 < b2\<close> of the other branch read its last value, and
  \<open>None\<close> stands for the variable being unbound. An entry of \<^verbatim>\<open>identical\<close> is the
  two sizes and the base name of \<^verbatim>\<open>book1\<close> (the tuple of the program also holds
  the difference formatted as a percentage). \<open>size1\<close> and \<open>size2\<close> are
  \<^verbatim>\<open>os.path.getsize\<close> in the two directories.
\<close>

function compareSize_while ::
  "(string \<Rightarrow> nat) \<Rightarrow> (string \<Rightarrow> nat) \<Rightarrow> int \<times> int \<Rightarrow> string \<Rightarrow> string \<Rightarrow> string list
     \<Rightarrow> int \<Rightarrow> int \<Rightarrow> string option \<Rightarrow> (nat \<times> nat \<times> string) list
     \<Rightarrow> error + (string option \<times> (nat \<times> nat \<times> string) list)" where
  "compareSize_while size1 size2 share book1 b1 books2 lo hi b2 identical =
     (if lo > hi then Inr (b2, identical)
      else (case py_index books2 ((lo + hi) div 2) of
              None \<Rightarrow> Inl IndexError
            | Some book2 \<Rightarrow>
                if has_book_ext book2
                then (if b1 = lower (base_name book2)
                      then Inr (Some (lower (base_name book2)),
                                if larger_by_share (size1 book1) (size2 book2) share
                                then identical @ [(size1 book1, size2 book2, base_name book1)]
                                else identical)
                      else if str_less b1 (lower (base_name book2))
                      then compareSize_while size1 size2 share book1 b1 books2
                             lo ((lo + hi) div 2 - 1) (Some (lower (base_name book2))) identical
                      else compareSize_while size1 size2 share book1 b1 books2
                             ((lo + hi) div 2 + 1) hi (Some (lower (base_name book2))) identical)
                else (case b2 of
                        None \<Rightarrow> Inl UnboundLocalError
                      | Some old_b2 \<Rightarrow>
                          if str_less b1 old_b2
                          then compareSize_while size1 size2 share book1 b1 books2
                                 lo ((lo + hi) div 2 - 1) b2 identical
                          else compareSize_while size1 size2 share book1 b1 books2
                                 ((lo + hi) div 2 + 1) hi b2 identical)))"
  by pat_completeness auto
termination
  by (relation "measure (\<lambda>(size1, size2, share, book1, b1, books2, lo, hi, b2, identical).
                  nat (hi + 1 - lo))") auto

fun compareSize_loop ::
  "(string \<Rightarrow> nat) \<Rightarrow> (string \<Rightarrow> nat) \<Rightarrow> int \<times> int \<Rightarrow> string list \<Rightarrow> string list
     \<Rightarrow> string option \<Rightarrow> (nat \<times> nat \<times> string) list
     \<Rightarrow> error + (nat \<times> nat \<times> string) list" where
  "compareSize_loop size1 size2 share books2 [] b2 identical = Inr identical"
| "compareSize_loop size1 size2 share books2 (book1 # books) b2 identical =
     (if has_book_ext book1
      then (case compareSize_while size1 size2 share book1 (lower (base_name book1)) books2
                   0 (int (length books2)) b2 identical of
              Inl e \<Rightarrow> Inl e
            | Inr (b2', identical') \<Rightarrow>
                compareSize_loop size1 size2 share books2 books b2' identical')
      else compareSize_loop size1 size2 share books2 books b2 identical)"

text \<open>The list \<^verbatim>\<open>identical\<close> at the end of the \<^verbatim>\<open>for\<close> loop, before it is sorted
  and printed.\<close>

definition compareSize ::
  "(string \<Rightarrow> nat) \<Rightarrow> (string \<Rightarrow> nat) \<Rightarrow> int \<times> int \<Rightarrow> string list \<Rightarrow> string list
     \<Rightarrow> error + (nat \<times> nat \<times> string) list" where
  "compareSize size1 size2 share books2 books =
     compareSize_loop size1 size2 share books2 books None []"

subsection \<open>A session used as an example\<close>

text \<open>A directory after an apostrophe repair, with a ledger whose second pair names a
  file that is not there.\<close>

definition ledger_example :: session where
  "ledger_example =
     \<lparr>files = {''Don't.mobi'', ''Other.pdf''},
      undo = [(''Don't.mobi'', ''Don_t.mobi''), (''Zen.epub'', ''Zen .epub'')],
      stdin = [], out = []\<rparr>"


subsection \<open>The pairs that a restore can rename\<close>

text \<open>This definition is not taken from the code: the pairs of the ledger whose new file
  is in the directory, in the order of the ledger.\<close>

definition present :: "session \<Rightarrow> (string \<times> string) list" where
  "present s = filter (\<lambda>p. fst p \<in> files s) (undo s)"

subsection \<open>The operations that write the ledger\<close>

text \<open>The seven functions that \<^verbatim>\<open>restoreOld\<close> can undo, as its docstring lists them.\<close>

definition destructive_operations ::
  "(string \<Rightarrow> string list option) \<Rightarrow> (string list \<Rightarrow> session \<Rightarrow> outcome) list" where
  "destructive_operations listdir =
     [removeMultipleSpacing, fixCommaSpacing, fixApostrophes, withoutAuthors, withAuthors,
      restoreAuthors listdir, removeSubstring]"

subsection \<open>What the comparison of two directories is to report\<close>

text \<open>
  The following definitions are not taken from the code: they say, in the words of the
  specification, what \<^verbatim>\<open>compareTwoDirs\<close> is to put into its three lists.

  A name is recognized when, in lower case, it holds \<^verbatim>\<open>.epub\<close>, \<^verbatim>\<open>.mobi\<close> or
  \<^verbatim>\<open>.pdf\<close>; every other entry of either directory, a \<^verbatim>\<open>.azw\<close> or a \<^verbatim>\<open>.txt\<close>
  file, is passed over and is in none of the lists. \<open>book_extension\<close> is one of the three
  extensions in any case, and a stem is plain when no dot in it has a word character after
  it, so that the name has the one extension only.

  \<open>book_base_names\<close> are the base names of the recognized entries, in the order of the
  listing. A name is identical to a candidate when their ratio is 1, and it is similar to
  the candidates with a ratio of at least 0.9 and below 1 that are compared with it, which
  are those before the first identical one. It is not found when no candidate has a ratio
  of at least 0.9.
\<close>

definition recognized :: "string \<Rightarrow> bool" where
  "recognized name =
     (sublist ''.epub'' (lower name) \<or> sublist ''.mobi'' (lower name)
      \<or> sublist ''.pdf'' (lower name))"

definition book_extension :: "string \<Rightarrow> bool" where
  "book_extension e = (lower e = ''epub'' \<or> lower e = ''mobi'' \<or> lower e = ''pdf'')"

fun plain :: "string \<Rightarrow> bool" where
  "plain (a # b # s) = (\<not> (a = CHR ''.'' \<and> is_word b) \<and> plain (b # s))"
| "plain s = True"

definition book_base_names :: "string list \<Rightarrow> string list" where
  "book_base_names books = map base_name (filter recognized books)"

definition identical_to :: "string list \<Rightarrow> string \<Rightarrow> string list" where
  "identical_to candidates b1 =
     (if list_ex (\<lambda>b2. quick_ratio b1 b2 = 1) candidates then [b1] else [])"

definition similar_to :: "string list \<Rightarrow> string \<Rightarrow> (string \<times> string) list" where
  "similar_to candidates b1 =
     map (Pair b1)
       (filter (\<lambda>b2. 9 / 10 \<le> quick_ratio b1 b2 \<and> quick_ratio b1 b2 < 1)
         (takeWhile (\<lambda>b2. quick_ratio b1 b2 \<noteq> 1) candidates))"

definition not_found_in :: "string list \<Rightarrow> string \<Rightarrow> string list" where
  "not_found_in candidates b1 =
     (if list_ex (\<lambda>b2. 9 / 10 \<le> quick_ratio b1 b2) candidates then [] else [b1])"

subsection \<open>The grammar of a filename\<close>

text \<open>
  These definitions are not taken from the code: they write out the grammar
  \<^verbatim>\<open><Authors> - <Title>[_ <Subtitle>][, <Article>].<ext>\<close> of the specification.
  \<open>free_of\<close> says that a segment holds none of the given delimiters and no line feed.
  A name is delimiter free when its segments do not hold the delimiters that end them: the
  authors hold no hyphen; the title holds no hyphen, underscore or comma; the subtitle
  holds no comma; the extension holds no hyphen, underscore, comma or dot and has at most
  four characters; the article is one of the three that \<^verbatim>\<open>withoutAuthors\<close> knows.
  \<open>stripped_name\<close> is the title with the article in front.
\<close>

definition free_of :: "string \<Rightarrow> string \<Rightarrow> bool" where
  "free_of delimiters s = list_all (\<lambda>c. c \<notin> set delimiters \<and> any_char c) s"

definition grammar_name ::
  "string \<Rightarrow> string \<Rightarrow> string option \<Rightarrow> string option \<Rightarrow> string \<Rightarrow> string" where
  "grammar_name authors title subtitle article ext =
     authors @ '' - '' @ title
       @ (case subtitle of None \<Rightarrow> [] | Some st \<Rightarrow> ''_ '' @ st)
       @ (case article of None \<Rightarrow> [] | Some a \<Rightarrow> '', '' @ a)
       @ ''.'' @ ext"

definition delimiter_free ::
  "string \<Rightarrow> string \<Rightarrow> string option \<Rightarrow> string option \<Rightarrow> string \<Rightarrow> bool" where
  "delimiter_free authors title subtitle article ext =
     (authors \<noteq> [] \<and> free_of ''-'' authors
      \<and> title \<noteq> [] \<and> free_of ''-_,'' title
      \<and> (case subtitle of None \<Rightarrow> True | Some st \<Rightarrow> st \<noteq> [] \<and> free_of '','' st)
      \<and> (case article of None \<Rightarrow> True | Some a \<Rightarrow> a \<in> {''A'', ''An'', ''The''})
      \<and> ext \<noteq> [] \<and> length ext \<le> 4 \<and> free_of ''-_,.'' ext)"

definition stripped_name :: "string \<Rightarrow> string option \<Rightarrow> string \<Rightarrow> string" where
  "stripped_name title article ext =
     (case article of None \<Rightarrow> [] | Some a \<Rightarrow> a @ '' '') @ title @ ''.'' @ ext"

subsection \<open>A name with nothing left to strip\<close>

text \<open>
  These definitions are not taken from the code either; they look at the characters of a
  name and use no pattern. \<open>separator_at\<close>: the text starts with a white-space
  character, a hyphen and a white-space character. \<open>after_char Q\<close>: some character
  other than the line feed is followed by a text for which \<open>Q\<close> holds. \<open>dot_ahead\<close>:
  the text starts with one or more characters other than the line feed that are followed
  by a dot. A name has a separator when a separator stands after one of its characters;
  it has the article \<open>a\<close> in its last \<open>n\<close> characters when \<^verbatim>\<open>, a.\<close> stands there
  after a character; it has a subtitle when an underscore and a white-space character
  are followed by such a text up to a dot. A name is settled when it is not empty, does
  not end with an underscore, and has no separator, none of the three articles in the
  last 9, 10 and 11 characters, and no subtitle.
\<close>

fun separator_at :: "string \<Rightarrow> bool" where
  "separator_at (a # b # c # s) = (is_space a \<and> b = CHR ''-'' \<and> is_space c)"
| "separator_at s = False"

fun after_char :: "(string \<Rightarrow> bool) \<Rightarrow> string \<Rightarrow> bool" where
  "after_char Q [] = False"
| "after_char Q (c # s) = ((c \<noteq> CHR 0x0A \<and> Q s) \<or> after_char Q s)"

fun dot_ahead :: "string \<Rightarrow> bool" where
  "dot_ahead [] = False"
| "dot_ahead (c # s) = (c \<noteq> CHR 0x0A \<and> (prefix ''.'' s \<or> dot_ahead s))"

definition has_separator :: "string \<Rightarrow> bool" where
  "has_separator name = after_char separator_at name"

definition has_article :: "string \<Rightarrow> nat \<Rightarrow> string \<Rightarrow> bool" where
  "has_article a n name = after_char (prefix ('', '' @ a @ ''.'')) (drop (length name - n) name)"

fun has_subtitle :: "string \<Rightarrow> bool" where
  "has_subtitle (a # b # s) =
     ((a = CHR ''_'' \<and> is_space b \<and> dot_ahead s) \<or> has_subtitle (b # s))"
| "has_subtitle s = False"

definition settled :: "string \<Rightarrow> bool" where
  "settled name =
     (name \<noteq> [] \<and> last name \<noteq> CHR ''_'' \<and> \<not> has_separator name
      \<and> \<not> has_article ''A'' 9 name \<and> \<not> has_article ''An'' 10 name
      \<and> \<not> has_article ''The'' 11 name \<and> \<not> has_subtitle name)"

section \<open>The program at the inputs where it leaves the specification\<close>

text \<open>
  Claim C1. A pair (new, old) should be in the ledger only if the rename of old to new
  was performed. \<^verbatim>\<open>withAuthors\<close> writes \<^verbatim>\<open>undo[new] = old\<close> before it calls
  \<^verbatim>\<open>os.rename\<close>. Two files whose proposed names coincide: the first is renamed; the
  rename of the second raises \<^verbatim>\<open>FileExistsError\<close>, the user answers O, the file keeps
  its name. At the end the ledger maps the new name to the second file, which was never
  renamed, and the entry of the rename that did happen is gone.
\<close>

theorem withAuthors_ledger_without_rename:
  "withAuthors [''Smith - War_ Part 1.epub'', ''Smith - War_ Part 2.epub'']
     \<lparr>files = {''Smith - War_ Part 1.epub'', ''Smith - War_ Part 2.epub''},
      undo = [], stdin = [''O''], out = []\<rparr>
   = Inr \<lparr>files = {''Smith - War.epub'', ''Smith - War_ Part 2.epub''},
          undo = [(''Smith - War.epub'', ''Smith - War_ Part 2.epub'')],
          stdin = [],
          out = [ChangedTo ''Smith - War_ Part 1.epub'' ''Smith - War.epub'',
                 NotRenamed ''Smith - War_ Part 2.epub'', Finished 2]\<rparr>"
  by code_simp

text \<open>
  Claim C2. A name whose only defect is one space before \<^verbatim>\<open>.epub\<close> should be renamed
  on disk. \<^verbatim>\<open>removeMultipleSpacing\<close> calls \<^verbatim>\<open>os.rename\<close> only in the branch for
  runs of two or more white-space characters: for \<^verbatim>\<open>"Name .epub"\<close> the directory
  is unchanged, while the ledger gets the pair and the file is counted.
\<close>

theorem removeMultipleSpacing_end_space_not_renamed:
  "removeMultipleSpacing [''Name .epub'']
     \<lparr>files = {''Name .epub''}, undo = [], stdin = [], out = []\<rparr>
   = Inr \<lparr>files = {''Name .epub''}, undo = [(''Name.epub'', ''Name .epub'')], stdin = [],
          out = [SpacingRemoved ''Name .epub'' ''Name.epub'', Finished 1]\<rparr>"
  by code_simp

text \<open>
  Claim C7. Every comma followed by a character that is neither white space nor a digit
  should get one space, a comma before a digit should stay, white space before a comma
  should go, and nothing else should change. In \<^verbatim>\<open>fixCommaSpacing\<close> the test
  \<^verbatim>\<open>not re.search(r",\d", book)\<close> looks at the whole name, the substitution
  \<^verbatim>\<open>re.sub(r",", ", ", book)\<close> takes every comma, \<^verbatim>\<open>\s,\<close> takes one white-space
  character, and the second \<^verbatim>\<open>os.rename\<close> starts from the old name again. So a name
  with a thousands separator keeps its other commas as they are, a comma that already has
  its space gets a second one, one of two spaces before a comma stays, and a name that
  needs both repairs is renamed once and then raises \<^verbatim>\<open>FileNotFoundError\<close>.
\<close>

theorem fixCommaSpacing_failures:
  "comma_name ''Verne,Jules - 20,000 Leagues.pdf'' = ''Verne,Jules - 20,000 Leagues.pdf''
   \<and> fixCommaSpacing [''Verne,Jules - 20,000 Leagues.pdf'']
        \<lparr>files = {''Verne,Jules - 20,000 Leagues.pdf''}, undo = [], stdin = [], out = []\<rparr>
      = Inr \<lparr>files = {''Verne,Jules - 20,000 Leagues.pdf''}, undo = [], stdin = [],
             out = [Finished 0]\<rparr>
   \<and> comma_name ''Smith,John, Jr.pdf'' = ''Smith, John,  Jr.pdf''
   \<and> comma_name ''Smith  , John.pdf'' = ''Smith , John.pdf''
   \<and> fixCommaSpacing [''Smith ,John.pdf'']
        \<lparr>files = {''Smith ,John.pdf''}, undo = [], stdin = [], out = []\<rparr>
      = Inl (FileNotFoundError,
             \<lparr>files = {''Smith,John.pdf''}, undo = [], stdin = [], out = []\<rparr>)"
  by code_simp

text \<open>
  Claim C9. A target with a matching reference entry should be renamed and get no
  "not found" report. In \<^verbatim>\<open>restoreAuthors\<close> the report is printed after the inner loop
  whether it ended by \<^verbatim>\<open>break\<close> or not: the target \<^verbatim>\<open>"Code.epub"\<close> is renamed,
  recorded and counted, and reported as not found.
\<close>

theorem restoreAuthors_not_found_after_match:
  "restoreAuthors (\<lambda>path2. Some [''Petzold, Charles - Code.epub'']) [''Code.epub'']
     \<lparr>files = {''Code.epub''}, undo = [], stdin = [''books2''], out = []\<rparr>
   = Inr \<lparr>files = {''Petzold, Charles - Code.epub''},
          undo = [(''Petzold, Charles - Code.epub'', ''Code.epub'')], stdin = [],
          out = [ChangedTo ''Code.epub'' ''Petzold, Charles - Code.epub'',
                 AuthorsNotFound ''Code.epub'', Finished 1]\<rparr>"
  by code_simp

text \<open>
  Claim C10. The binary search of \<^verbatim>\<open>compareSize\<close> should read valid indices only.
  It starts with \<^verbatim>\<open>upper = len(books2)\<close> and reads
  \<^verbatim>\<open>books2[(lower + upper) // 2]\<close> while \<^verbatim>\<open>lower <= upper\<close>: with an empty
  listing it reads index 0, and for a name greater than every entry it reaches
  \<^verbatim>\<open>lower = upper = len(books2)\<close>. Both raise \<^verbatim>\<open>IndexError\<close>.
\<close>

theorem compareSize_index_out_of_range:
  "compareSize (\<lambda>book. 1000) (\<lambda>book. 400) (1, - 1) [] [''X.epub''] = Inl IndexError
   \<and> compareSize (\<lambda>book. 1000) (\<lambda>book. 400) (1, - 1) [''A.epub'', ''B.epub''] [''X.epub'']
       = Inl IndexError"
  by code_simp

text \<open>
  Claim C5. A pair with equal lower-case base names should be reported exactly when the
  first file is larger by at least the share of its own size, and the share 1 should
  report no pair; the docstring of \<^verbatim>\<open>compareSize\<close> says the same
  (\<^verbatim>\<open>e.g. 1 returns empty list\<close>). The test is
  \<^verbatim>\<open>size1 > size2 and size1 - size2 >= size1 * share\<close>, with \<^verbatim>\<open>>=\<close>: at the share
  1 it holds for an empty file in the second directory, and the pair of 1000 bytes and 0
  bytes is reported. The search also compares lower-case base names in a listing that is
  sorted by file name: \<^verbatim>\<open>"Dune Messiah.epub"\<close> stands before \<^verbatim>\<open>"Dune.epub"\<close>, its
  base name after, and the file is not found in a listing that holds it, so a larger
  pair is not reported at the share 0.
\<close>

theorem compareSize_threshold_one_reports:
  "compareSize (\<lambda>book. 1000) (\<lambda>book. 0) (1, 0) [''X.epub''] [''X.epub'']
     = Inr [(1000, 0, ''X'')]
   \<and> compareSize (\<lambda>book. 1000) (\<lambda>book. 400) (0, 0)
        [''Dune Messiah.epub'', ''Dune.epub'', ''Emma.epub''] [''Dune Messiah.epub''] = Inr []"
  by code_simp

text \<open>Where the test does what the claim says: 1000 bytes against 400 at the shares 0.5
  and 0.7. The product is a rounded one: \<^verbatim>\<open>100 * 0.07\<close> is
  \<^verbatim>\<open>7.000000000000001\<close>, so 100 bytes against 93 are not reported at the share 0.07,
  and \<^verbatim>\<open>30 * 0.1\<close> is \<^verbatim>\<open>3.0\<close>, so 30 bytes against 27 are reported at the share
  0.1, whose double is above one tenth.\<close>

lemma compareSize_examples:
  "compareSize (\<lambda>book. 1000) (\<lambda>book. 400) (1, - 1) [''X.epub''] [''X.epub'']
     = Inr [(1000, 400, ''X'')]
   \<and> compareSize (\<lambda>book. 1000) (\<lambda>book. 400) (3152519739159347, - 52) [''X.epub''] [''X.epub'']
       = Inr []
   \<and> compareSize (\<lambda>book. 100) (\<lambda>book. 93) (1261007895663739, - 54) [''X.epub''] [''X.epub'']
       = Inr []
   \<and> compareSize (\<lambda>book. 30) (\<lambda>book. 27) (3602879701896397, - 55) [''X.epub''] [''X.epub'']
       = Inr [(30, 27, ''X'')]"
  by code_simp

section \<open>restoreOld\<close>









section \<open>The ledger holds the last operation only\<close>

text \<open>The invariant of every loop that writes the ledger: the old names in it are names of
  the files the operation was given. It holds for the session a loop returns and for the one
  it leaves behind when it raises.\<close>

lemma dict_set_olds: "snd ` set (dict_set k v d) \<subseteq> insert v (snd ` set d)"
  by (induction d) auto

lemma os_rename_cases:
  obtains (renamed) s' where "os_rename a b s = Inr s'" and "undo s' = undo s"
      and "stdin s' = stdin s" and "out s' = out s"
  | (raised) e where "os_rename a b s = Inl (e, s)"
proof (cases "a \<in> files s \<and> \<not> (b \<in> files s \<and> b \<noteq> a)")
  case True
  then have "os_rename a b s = Inr (s\<lparr>files := insert b (files s - {a})\<rparr>)"
    by (auto simp: os_rename_def)
  then show thesis using renamed by simp
next
  case False
  then have "os_rename a b s = Inl (FileNotFoundError, s) \<or> os_rename a b s = Inl (FileExistsError, s)"
    by (auto simp: os_rename_def)
  then show thesis using raised by blast
qed

lemma record_undo_olds:
  "snd ` set (undo s) \<subseteq> B \<Longrightarrow> old \<in> B \<Longrightarrow> snd ` set (undo (say m (record_undo new old s))) \<subseteq> B"
proof -
  assume a: "snd ` set (undo s) \<subseteq> B" "old \<in> B"
  have "snd ` set (dict_set new old (undo s)) \<subseteq> insert old (snd ` set (undo s))"
    by (rule dict_set_olds)
  also have "\<dots> \<subseteq> B" using a by auto
  finally show ?thesis by (simp add: say_def record_undo_def)
qed

lemma say_olds: "undo (say m s) = undo s"
  by (simp add: say_def)

lemma removeMultipleSpacing_loop_olds:
  "snd ` set (undo s) \<subseteq> B \<Longrightarrow> set books \<subseteq> B \<Longrightarrow>
   snd ` set (undo (final (removeMultipleSpacing_loop books c s))) \<subseteq> B"
proof (induction books arbitrary: c s)
  case Nil
  then show ?case by (simp add: final_def say_def)
next
  case (Cons old books)
  then have old: "old \<in> B" and rest: "set books \<subseteq> B" by auto
  show ?case
  proof (cases "end_spacing old")
    case (Inl e)
    then show ?thesis using Cons.prems by (simp add: final_def)
  next
    case (Inr r)
    obtain book spacing where r: "r = (book, spacing)" by (cases r)
    show ?thesis
    proof (cases "re_search p_spaces book")
      case True
      show ?thesis
      proof (cases rule: os_rename_cases [of old "sub_all p_spaces '' '' book" s])
        case (renamed s')
        then have "snd ` set (undo s') \<subseteq> B" using Cons.prems by simp
        from Cons.IH [OF record_undo_olds [OF this old] rest]
        show ?thesis using Inr r True renamed by simp
      next
        case (raised e)
        then show ?thesis using Inr r True Cons.prems by (simp add: final_def)
      qed
    next
      case False
      show ?thesis
      proof (cases spacing)
        case True
        from Cons.IH [OF record_undo_olds [OF Cons.prems(1) old] rest]
        show ?thesis using Inr r False True by simp
      next
        case nsp: False
        from Cons.IH [OF Cons.prems(1) rest]
        show ?thesis using Inr r False nsp by simp
      qed
    qed
  qed
qed

lemma fixApostrophes_loop_olds:
  "snd ` set (undo s) \<subseteq> B \<Longrightarrow> set books \<subseteq> B \<Longrightarrow>
   snd ` set (undo (final (fixApostrophes_loop books c s))) \<subseteq> B"
proof (induction books arbitrary: c s)
  case Nil
  then show ?case by (simp add: final_def say_def)
next
  case (Cons old books)
  then have old: "old \<in> B" and rest: "set books \<subseteq> B" by auto
  show ?case
  proof (cases "re_search p_letter_underscore_letter old")
    case True
    show ?thesis
    proof (cases rule: os_rename_cases [of old "apostrophes None old" s])
      case (renamed s')
      then have "snd ` set (undo s') \<subseteq> B" using Cons.prems by simp
      from Cons.IH [OF record_undo_olds [OF this old] rest]
      show ?thesis using True renamed by simp
    next
      case (raised e)
      then show ?thesis using True Cons.prems by (simp add: final_def)
    qed
  next
    case False
    from Cons.IH [OF Cons.prems(1) rest] show ?thesis using False by simp
  qed
qed

lemma removeSubstring_loop_olds:
  "snd ` set (undo s) \<subseteq> B \<Longrightarrow> set books \<subseteq> B \<Longrightarrow>
   snd ` set (undo (final (removeSubstring_loop substring books c s))) \<subseteq> B"
proof (induction books arbitrary: c s)
  case Nil
  then show ?case by (simp add: final_def say_def)
next
  case (Cons book books)
  then have old: "book \<in> B" and rest: "set books \<subseteq> B" by auto
  show ?case
  proof (cases "str_in substring book")
    case True
    show ?thesis
    proof (cases rule: os_rename_cases [of book "replace_first substring [] book" s])
      case (renamed s')
      then have "snd ` set (undo s') \<subseteq> B" using Cons.prems by simp
      from Cons.IH [OF record_undo_olds [OF this old] rest]
      show ?thesis using True renamed by simp
    next
      case (raised e)
      then show ?thesis using True Cons.prems by (simp add: final_def)
    qed
  next
    case False
    have "snd ` set (undo (say (NoSubstring book substring) s)) \<subseteq> B"
      using Cons.prems by (simp add: say_olds)
    from Cons.IH [OF this rest] show ?thesis using False by simp
  qed
qed

lemma guarded_rename_cases:
  obtains (went) x ch s1
    where "(if g then (case os_rename a b s of Inl e \<Rightarrow> Inl e | Inr s1 \<Rightarrow> Inr (y, True, s1))
            else Inr (x0, ch0, s)) = Inr (x, ch, s1)"
      and "undo s1 = undo s"
  | (raised) e
    where "(if g then (case os_rename a b s of Inl e \<Rightarrow> Inl e | Inr s1 \<Rightarrow> Inr (y, True, s1))
            else Inr (x0, ch0, s)) = Inl (e, s)"
proof (cases g)
  case False
  then show thesis using went [of x0 ch0 s] by simp
next
  case True
  show thesis
  proof (cases rule: os_rename_cases [of a b s])
    case (renamed s')
    then show thesis using True went [of y True s'] by simp
  next
    case (raised e)
    then show thesis using True by (simp add: \<open>\<And>e. _ \<Longrightarrow> thesis\<close>)
  qed
qed

lemma fixCommaSpacing_loop_olds:
  "snd ` set (undo s) \<subseteq> B \<Longrightarrow> set books \<subseteq> B \<Longrightarrow>
   snd ` set (undo (final (fixCommaSpacing_loop books c s))) \<subseteq> B"
proof (induction books arbitrary: c s)
  case Nil
  then show ?case by (simp add: final_def say_def)
next
  case (Cons old books)
  then have old: "old \<in> B" and rest: "set books \<subseteq> B" by auto
  show ?case
  proof (cases rule: guarded_rename_cases
      [where g = "re_search p_space_comma old" and a = old
         and b = "sub_all p_space_comma '','' old" and s = s
         and y = "sub_all p_space_comma '','' old" and ?x0.0 = old and ?ch0.0 = False])
    case (raised e)
    then show ?thesis using Cons.prems by (simp add: final_def)
  next
    case first: (went book changed s1)
    show ?thesis
    proof (cases rule: guarded_rename_cases
        [where g = "re_search p_comma_nonspace book \<and> \<not> re_search p_comma_digit book"
           and a = old and b = "sub_all p_comma '', '' book" and s = s1
           and y = "sub_all p_comma '', '' book" and ?x0.0 = book and ?ch0.0 = changed])
      case (raised e)
      then show ?thesis using first Cons.prems by (simp add: final_def)
    next
      case second: (went book2 changed2 s2)
      have inv: "snd ` set (undo s2) \<subseteq> B" using first second Cons.prems by simp
      show ?thesis
      proof (cases changed2)
        case True
        from Cons.IH [OF record_undo_olds [OF inv old] rest]
        show ?thesis using first second True by simp
      next
        case False
        from Cons.IH [OF inv rest] show ?thesis using first second False by simp
      qed
    qed
  qed
qed

lemma record_undo_only_olds:
  "snd ` set (undo s) \<subseteq> B \<Longrightarrow> old \<in> B \<Longrightarrow> snd ` set (undo (record_undo new old s)) \<subseteq> B"
  using record_undo_olds [of s B old NothingToRestore new] by (simp add: say_olds)

lemma withoutAuthors_loop_olds:
  "snd ` set (undo s) \<subseteq> B \<Longrightarrow> set books \<subseteq> B \<Longrightarrow>
   snd ` set (undo (final (withoutAuthors_loop books s))) \<subseteq> B"
proof (induction books arbitrary: s)
  case Nil
  then show ?case by (simp add: final_def)
next
  case (Cons old books)
  then have old: "old \<in> B" and rest: "set books \<subseteq> B" by auto
  let ?n = "noauthor_of old"
  let ?t = "title_of ?n"
  show ?case
  proof (cases rule: os_rename_cases [of old ?n s])
    case (raised e)
    then show ?thesis using Cons.prems by (simp add: final_def)
  next
    case one: (renamed s1)
    show ?thesis
    proof (cases rule: os_rename_cases [of ?n ?t s1])
      case (raised e)
      then show ?thesis using one Cons.prems by (simp add: final_def)
    next
      case two: (renamed s2)
      have inv2: "snd ` set (undo s2) \<subseteq> B" using one two Cons.prems by simp
      show ?thesis
      proof (cases "?t = []")
        case True
        then show ?thesis using one two inv2 by (simp add: final_def)
      next
        case ne: False
        show ?thesis
        proof (cases "last ?t = chr_underscore")
          case False
          from Cons.IH [OF record_undo_olds [OF inv2 old] rest]
          show ?thesis using one two ne False by simp
        next
          case True
          show ?thesis
          proof (cases rule: os_rename_cases [of ?t "butlast ?t" s2])
            case (raised e)
            then show ?thesis using one two ne True inv2 by (simp add: final_def)
          next
            case three: (renamed s3)
            have inv3: "snd ` set (undo s3) \<subseteq> B" using three inv2 by simp
            from Cons.IH [OF record_undo_olds [OF inv3 old] rest]
            show ?thesis using one two ne True three by simp
          qed
        qed
      qed
    qed
  qed
qed

lemma withAuthors_loop_olds:
  "snd ` set (undo s) \<subseteq> B \<Longrightarrow> fst ` set pairs \<subseteq> B \<Longrightarrow>
   snd ` set (undo (final (withAuthors_loop pairs s))) \<subseteq> B"
proof (induction pairs arbitrary: s)
  case Nil
  then show ?case by (simp add: final_def)
next
  case (Cons p pairs)
  obtain old new where p: "p = (old, new)" by (cases p)
  from Cons.prems have old: "old \<in> B" and rest: "fst ` set pairs \<subseteq> B" by (auto simp: p)
  have cont: "snd ` set (undo (final (withAuthors_loop pairs (say m s')))) \<subseteq> B"
    if "snd ` set (undo s') \<subseteq> B" for m s'
    using Cons.IH [of "say m s'"] that rest by (simp add: say_olds)
  show ?case
  proof (cases "new = []")
    case True
    then show ?thesis using Cons.prems by (simp add: p final_def)
  next
    case ne: False
    show ?thesis
    proof (cases "last new = chr_underscore")
      case True
      let ?s0 = "record_undo (butlast new) old s"
      have inv0: "snd ` set (undo ?s0) \<subseteq> B"
        by (rule record_undo_only_olds [OF Cons.prems(1) old])
      show ?thesis
      proof (cases rule: os_rename_cases [of old "butlast new" ?s0])
        case (raised e)
        then show ?thesis using ne True inv0 by (simp add: p final_def)
      next
        case (renamed s1)
        then have "snd ` set (undo s1) \<subseteq> B" using inv0 by simp
        from cont [OF this] show ?thesis using ne True renamed by (simp add: p)
      qed
    next
      case False
      let ?s0 = "record_undo new old s"
      have inv0: "snd ` set (undo ?s0) \<subseteq> B"
        by (rule record_undo_only_olds [OF Cons.prems(1) old])
      show ?thesis
      proof (cases rule: os_rename_cases [of old new ?s0])
        case (renamed s1)
        then have "snd ` set (undo s1) \<subseteq> B" using inv0 by simp
        from cont [OF this] show ?thesis using ne False renamed by (simp add: p)
      next
        case (raised e)
        show ?thesis
        proof (cases "e = FileExistsError")
          case nfe: False
          then show ?thesis using ne False raised inv0 by (simp add: p final_def)
        next
          case fe: True
          show ?thesis
          proof (cases "ask_exists (stdin ?s0)")
            case None
            then show ?thesis using ne False raised fe inv0 by (simp add: p final_def)
          next
            case (Some r)
            obtain answer inputs where r: "r = (answer, inputs)" by (cases r)
            show ?thesis
            proof (cases "answer \<in> {''n'', ''N''}")
              case no: False
              have "snd ` set (undo (?s0\<lparr>stdin := inputs\<rparr>)) \<subseteq> B" using inv0 by simp
              from cont [OF this] show ?thesis
                using ne False raised fe Some r no by (simp add: p)
            next
              case yes: True
              show ?thesis
              proof (cases inputs)
                case Nil
                then show ?thesis
                  using ne False raised fe Some r yes inv0 by (simp add: p final_def)
              next
                case (Cons new2 inputs2)
                let ?s2 = "record_undo new2 old (?s0\<lparr>stdin := inputs2\<rparr>)"
                have "snd ` set (undo (?s0\<lparr>stdin := inputs2\<rparr>)) \<subseteq> B" using inv0 by simp
                then have inv2: "snd ` set (undo ?s2) \<subseteq> B"
                  by (rule record_undo_only_olds [OF _ old])
                show ?thesis
                proof (cases rule: os_rename_cases [of old new2 ?s2])
                  case again: (raised e2)
                  then show ?thesis
                    using ne False raised fe Some r yes Cons inv2 by (simp add: p final_def)
                next
                  case again: (renamed s3)
                  then have "snd ` set (undo s3) \<subseteq> B" using inv2 by simp
                  from cont [OF this] show ?thesis
                    using ne False raised fe Some r yes Cons again by (simp add: p)
                qed
              qed
            qed
          qed
        qed
      qed
    qed
  qed
qed

lemma dict_set_keys: "fst ` set (dict_set k v d) \<subseteq> insert k (fst ` set d)"
  by (induction d) auto

lemma to_rename_of_keys: "fst ` set (to_rename_of books d) \<subseteq> fst ` set d \<union> set books"
proof (induction books arbitrary: d)
  case Nil
  show ?case by simp
next
  case (Cons book books)
  have "fst ` set (to_rename_of books (dict_set book (proposed_name book) d))
          \<subseteq> fst ` set (dict_set book (proposed_name book) d) \<union> set books"
    by (rule Cons.IH)
  also have "\<dots> \<subseteq> insert book (fst ` set d) \<union> set books"
    using dict_set_keys [of book "proposed_name book" d] by auto
  finally show ?case by auto
qed

lemma restoreAuthors_inner_olds:
  "snd ` set (undo s) \<subseteq> B \<Longrightarrow> book1 \<in> B \<Longrightarrow>
   (case restoreAuthors_inner book1 books2 title2 c s of
      Inl (e, s') \<Rightarrow> snd ` set (undo s') \<subseteq> B
    | Inr (broke, title2', c', s') \<Rightarrow> snd ` set (undo s') \<subseteq> B)"
proof (induction books2 arbitrary: title2)
  case Nil
  then show ?case by simp
next
  case (Cons book2 books2)
  note inv = Cons.prems(1) and b1 = Cons.prems(2)
  let ?t2 = "if has_book_ext book1 then Some (title2_of book2) else title2"
  show ?case
  proof (cases ?t2)
    case None
    then show ?thesis using inv by simp
  next
    case outer: (Some found)
    show ?thesis
    proof (cases found)
      case None
      then show ?thesis using outer Cons.IH [OF inv b1, of "Some None"] by simp
    next
      case (Some t2)
      show ?thesis
      proof (cases "title1_of book1")
        case None
        then show ?thesis using outer Some inv by simp
      next
        case t1: (Some t1)
        show ?thesis
        proof (cases "t1 = t2")
          case False
          then show ?thesis
            using outer Some t1 Cons.IH [OF inv b1, of "Some (Some t2)"] by simp
        next
          case True
          show ?thesis
          proof (cases "first_match p_up_to_dot book2")
            case None
            then show ?thesis using outer Some t1 True inv by simp
          next
            case stem: (Some stem)
            show ?thesis
            proof (cases "extension1_of book1")
              case None
              then show ?thesis using outer Some t1 True stem inv by simp
            next
              case ext: (Some ext)
              show ?thesis
              proof (cases rule: os_rename_cases [of book1 "stem @ ext" s])
                case (raised e)
                then show ?thesis using outer Some t1 True stem ext inv by simp
              next
                case (renamed s1)
                then have "snd ` set (undo s1) \<subseteq> B" using inv by simp
                from record_undo_olds [OF this b1]
                show ?thesis using outer Some t1 True stem ext renamed by simp
              qed
            qed
          qed
        qed
      qed
    qed
  qed
qed

lemma restoreAuthors_loop_olds:
  "snd ` set (undo s) \<subseteq> B \<Longrightarrow> set books \<subseteq> B \<Longrightarrow>
   snd ` set (undo (final (restoreAuthors_loop books2 books title2 c s))) \<subseteq> B"
proof (induction books arbitrary: title2 c s)
  case Nil
  then show ?case by (simp add: final_def say_def)
next
  case (Cons book1 books)
  then have b1: "book1 \<in> B" and rest: "set books \<subseteq> B" by auto
  show ?case
  proof (cases "restoreAuthors_inner book1 books2 title2 c s")
    case (Inl r)
    obtain e s' where r: "r = (e, s')" by (cases r)
    show ?thesis
      using restoreAuthors_inner_olds [OF Cons.prems(1) b1, of books2 title2 c] Inl r
      by (simp add: final_def)
  next
    case (Inr r)
    obtain broke title2' c' s' where r: "r = (broke, title2', c', s')" by (cases r)
    have "snd ` set (undo s') \<subseteq> B"
      using restoreAuthors_inner_olds [OF Cons.prems(1) b1, of books2 title2 c] Inr r by simp
    then have "snd ` set (undo (say (AuthorsNotFound book1) s')) \<subseteq> B" by (simp add: say_olds)
    from Cons.IH [OF this rest] show ?thesis using Inr r by simp
  qed
qed

text \<open>
  Claim C4. Every destructive operation empties the ledger before it records anything, so
  the ledger holds pairs of the most recent operation only, also when that operation
  changes no file. For each of the seven operations: its outcome does not depend on the
  ledger it finds; whether it returns or raises, every old name in the ledger it leaves is
  one of the files it was given; and on an empty list of files it leaves the empty ledger.
\<close>

theorem destructive_operation_clears_ledger:
  assumes "operation \<in> set (destructive_operations listdir)"
  shows "operation books (s\<lparr>undo := previous\<rparr>) = operation books (s\<lparr>undo := []\<rparr>)
         \<and> snd ` set (undo (final (operation books s))) \<subseteq> set books
         \<and> undo (final (operation [] s)) = []"
proof -
  have fresh: "snd ` set (undo (s'\<lparr>undo := []\<rparr>)) \<subseteq> set books" for s' :: session by simp
  have fresh2: "snd ` set (undo (s'\<lparr>undo := [], stdin := i\<rparr>)) \<subseteq> set books"
    for s' :: session and i by simp
  have spacing: "snd ` set (undo (final (removeMultipleSpacing bs s'))) \<subseteq> set bs" for bs s'
    unfolding removeMultipleSpacing_def
    by (rule removeMultipleSpacing_loop_olds) simp_all
  have comma: "snd ` set (undo (final (fixCommaSpacing bs s'))) \<subseteq> set bs" for bs s'
    unfolding fixCommaSpacing_def by (rule fixCommaSpacing_loop_olds) simp_all
  have apos: "snd ` set (undo (final (fixApostrophes bs s'))) \<subseteq> set bs" for bs s'
    unfolding fixApostrophes_def by (rule fixApostrophes_loop_olds) simp_all
  have without: "snd ` set (undo (final (withoutAuthors bs s'))) \<subseteq> set bs" for bs s'
    unfolding withoutAuthors_def by (rule withoutAuthors_loop_olds) simp_all
  have "with": "snd ` set (undo (final (withAuthors bs s'))) \<subseteq> set bs" for bs s'
  proof -
    have "snd ` set (undo (final (withAuthors_loop (to_rename_of bs []) (s'\<lparr>undo := []\<rparr>))))
            \<subseteq> set bs"
      by (rule withAuthors_loop_olds) (use to_rename_of_keys [of bs "[]"] in simp_all)
    then show ?thesis
      by (cases "withAuthors_loop (to_rename_of bs []) (s'\<lparr>undo := []\<rparr>)")
         (auto simp: withAuthors_def final_def say_def)
  qed
  have restore: "snd ` set (undo (final (restoreAuthors listdir bs s'))) \<subseteq> set bs" for bs s'
  proof (cases "stdin s'")
    case Nil
    then show ?thesis by (simp add: restoreAuthors_def final_def)
  next
    case (Cons path2 inputs)
    show ?thesis
    proof (cases "listdir path2")
      case None
      then show ?thesis using Cons by (simp add: restoreAuthors_def final_def)
    next
      case (Some books2)
      have "snd ` set (undo (final (restoreAuthors_loop books2 bs None 0
                 (s'\<lparr>undo := [], stdin := inputs\<rparr>)))) \<subseteq> set bs"
        by (rule restoreAuthors_loop_olds) simp_all
      then show ?thesis using Cons Some by (simp add: restoreAuthors_def)
    qed
  qed
  have substring: "snd ` set (undo (final (removeSubstring bs s'))) \<subseteq> set bs" for bs s'
  proof (cases "stdin s'")
    case Nil
    then show ?thesis by (simp add: removeSubstring_def final_def)
  next
    case (Cons sub inputs)
    have "snd ` set (undo (final (removeSubstring_loop sub bs 0
               (s'\<lparr>undo := [], stdin := inputs\<rparr>)))) \<subseteq> set bs"
      by (rule removeSubstring_loop_olds) simp_all
    then show ?thesis using Cons by (simp add: removeSubstring_def)
  qed
  have olds: "snd ` set (undo (final (operation bs s'))) \<subseteq> set bs" for bs s'
  proof -
    from assms consider "operation = removeMultipleSpacing" | "operation = fixCommaSpacing"
      | "operation = fixApostrophes" | "operation = withoutAuthors" | "operation = withAuthors"
      | "operation = restoreAuthors listdir" | "operation = removeSubstring"
      by (auto simp: destructive_operations_def)
    then show ?thesis
      by cases (simp_all only: spacing comma apos without "with" restore substring)
  qed
  have clears: "operation books (s\<lparr>undo := previous\<rparr>) = operation books (s\<lparr>undo := []\<rparr>)"
    using assms
    by (auto simp: destructive_operations_def removeMultipleSpacing_def fixCommaSpacing_def
          fixApostrophes_def withoutAuthors_def withAuthors_def restoreAuthors_def
          removeSubstring_def split: list.splits option.splits)
  have "snd ` set (undo (final (operation [] s))) \<subseteq> set []" by (rule olds)
  then have "undo (final (operation [] s)) = []" by simp
  then show ?thesis using olds clears by simp
qed

theorem destructive_operation_clears_ledger_witness:
  "fixApostrophes \<in> set (destructive_operations (\<lambda>path2. None))
   \<and> undo ledger_example \<noteq> []
   \<and> fixApostrophes [''Plain Name.epub''] (ledger_example\<lparr>undo := undo ledger_example\<rparr>)
       = fixApostrophes [''Plain Name.epub''] (ledger_example\<lparr>undo := []\<rparr>)
   \<and> snd ` set (undo (final (fixApostrophes [''Plain Name.epub''] ledger_example)))
       \<subseteq> set [''Plain Name.epub'']
   \<and> undo (final (fixApostrophes [] ledger_example)) = []
   \<and> undo (final (fixApostrophes [''Plain Name.epub''] ledger_example)) = []"
proof -
  have m: "fixApostrophes \<in> set (destructive_operations (\<lambda>path2. None))"
    by (simp add: destructive_operations_def)
  have n: "undo ledger_example \<noteq> []" by (simp add: ledger_example_def)
  have z: "undo (final (fixApostrophes [''Plain Name.epub''] ledger_example)) = []"
    by code_simp
  show ?thesis
    using destructive_operation_clears_ledger
            [OF m, where books = "[''Plain Name.epub'']" and s = ledger_example
               and previous = "undo ledger_example"] m n z
    by blast
qed

section \<open>compareTwoDirs\<close>

text \<open>The matcher on a literal and on the pattern of an extension.\<close>

lemma mt_lit_prefix: "(mt (lit e) s \<noteq> None) = prefix e s"
proof (induction e arbitrary: s)
  case Nil
  show ?case by (simp add: lit_def)
next
  case (Cons a e)
  show ?case using Cons.IH by (cases s) (auto simp: lit_def is_chr_def)
qed

lemma search_lit_sublist: "e \<noteq> [] \<Longrightarrow> re_search (lit e) s = sublist e s"
proof (induction s)
  case Nil
  then show ?case using mt_lit_prefix [of e "[]"] by (auto simp: re_search_def split: option.splits)
next
  case (Cons c s)
  have "(search (lit e) (c # s) \<noteq> None) = (mt (lit e) (c # s) \<noteq> None \<or> search (lit e) s \<noteq> None)"
    by (auto split: option.splits)
  then show ?case
    using Cons mt_lit_prefix [of e "c # s"] by (simp add: re_search_def sublist_Cons_right)
qed

lemma has_book_ext_recognized: "has_book_ext name = recognized name"
  by (simp add: has_book_ext_def recognized_def search_lit_sublist)

lemma mt_Plus_only:
  "mt [Plus P] s = (case s of [] \<Rightarrow> None | c # cs \<Rightarrow> if P c then Some (dropWhile P cs) else None)"
proof (induction s)
  case Nil
  show ?case by simp
next
  case (Cons c cs)
  show ?case using Cons.IH by (cases cs) auto
qed

lemma not_word_dot: "\<not> is_word (CHR ''.'')"
  by (simp add: is_word_def is_digit_def is_letter_def code_def)

lemma mt_extension:
  "mt p_extension (c # s) =
     (if c = CHR ''.'' \<and> s \<noteq> [] \<and> is_word (hd s) then Some (dropWhile is_word s) else None)"
proof -
  have "mt p_extension (c # s) = (if c = CHR ''.'' then mt [Plus is_word] s else None)"
    by (simp add: p_extension_def is_chr_def chr_dot_def)
  then show ?thesis unfolding mt_Plus_only by (cases s) simp_all
qed

lemma base_name_Cons:
  "base_name (c # s) =
     (if c = CHR ''.'' \<and> s \<noteq> [] \<and> is_word (hd s) then base_name (dropWhile is_word s)
      else c # base_name s)"
proof -
  have "length (dropWhile is_word s) < length (c # s)"
    using length_dropWhile_le [of is_word s] by simp
  then show ?thesis by (simp add: base_name_def mt_extension)
qed

lemma base_name_Nil: "base_name [] = []"
  by (simp add: base_name_def p_extension_def)


text \<open>The base name of a name with one more extension.\<close>

lemma dropWhile_word_dot:
  "dropWhile is_word (t @ CHR ''.'' # x) = dropWhile is_word t @ CHR ''.'' # x"
  by (induction t) (simp_all add: not_word_dot)

lemma base_name_dot: "base_name ''.'' = ''.''"
  by (simp add: base_name_Cons base_name_Nil)

lemma base_name_only_extension:
  assumes "e \<noteq> []" and "list_all is_word e"
  shows "base_name (''.'' @ e) = []"
proof -
  have dw: "dropWhile is_word e = []" using assms(2) by (simp add: list_all_iff)
  have "is_word (hd e)" using assms by (cases e) simp_all
  then have "base_name (''.'' @ e) = base_name (dropWhile is_word e)"
    using assms(1) by (simp add: base_name_Cons)
  then show ?thesis unfolding dw by (simp only: base_name_Nil)
qed

lemma base_name_extension:
  assumes "e \<noteq> []" and "list_all is_word e"
  shows "base_name (stem @ ''.'' @ e) @ ''.'' = base_name (stem @ ''.'')"
proof (induction stem rule: length_induct)
  case (1 stem)
  show ?case
  proof (cases stem)
    case Nil
    have "base_name (''.'' @ e) = []" using assms by (rule base_name_only_extension)
    then show ?thesis using Nil by (simp add: base_name_dot)
  next
    case (Cons c t)
    show ?thesis
    proof (cases "c = CHR ''.'' \<and> t \<noteq> [] \<and> is_word (hd t)")
      case True
      have l: "length (dropWhile is_word t) < length stem"
        using Cons length_dropWhile_le [of is_word t] by simp
      have "base_name (stem @ ''.'' @ e) = base_name (dropWhile is_word t @ ''.'' @ e)"
        using True Cons dropWhile_word_dot [of t e] by (simp add: base_name_Cons)
      moreover have "base_name (stem @ ''.'') = base_name (dropWhile is_word t @ ''.'')"
        using True Cons dropWhile_word_dot [of t "[]"] by (simp add: base_name_Cons)
      ultimately show ?thesis using 1 l by simp
    next
      case False
      have hd_t: "t \<noteq> [] \<Longrightarrow> hd (t @ x) = hd t" for x by simp
      have first: "\<not> (c = CHR ''.'' \<and> is_word (hd (t @ ''.'' @ x)))" for x
        using False by (cases t) (auto simp: not_word_dot)
      have "base_name (c # (t @ ''.'' @ e)) = c # base_name (t @ ''.'' @ e)"
        using first [of e] by (subst base_name_Cons) auto
      moreover have "base_name (c # (t @ ''.'')) = c # base_name (t @ ''.'')"
        using first [of "[]"] by (subst base_name_Cons) auto
      ultimately show ?thesis using 1 Cons by simp
    qed
  qed
qed

lemma base_name_same_stem:
  assumes "e1 \<noteq> []" and "list_all is_word e1" and "e2 \<noteq> []" and "list_all is_word e2"
  shows "base_name (stem @ ''.'' @ e1) = base_name (stem @ ''.'' @ e2)"
  using base_name_extension [OF assms(1,2), of stem] base_name_extension [OF assms(3,4), of stem]
  by (metis append_same_eq)

lemma plain_tail: "plain (c # t) \<Longrightarrow> plain t"
  by (cases t) simp_all

lemma base_name_plain:
  assumes "e \<noteq> []" and "list_all is_word e"
  shows "plain stem \<Longrightarrow> base_name (stem @ ''.'' @ e) = stem"
proof (induction stem)
  case Nil
  show ?case using base_name_only_extension [OF assms] by simp
next
  case (Cons c t)
  have "\<not> (c = CHR ''.'' \<and> is_word (hd (t @ ''.'' @ e)))"
    using Cons.prems by (cases t) (auto simp: not_word_dot)
  then have "base_name (c # (t @ ''.'' @ e)) = c # base_name (t @ ''.'' @ e)"
    by (subst base_name_Cons) auto
  then show ?case using Cons.IH plain_tail [OF Cons.prems] by simp
qed


text \<open>An extension of a book is made of letters, and a name that ends with one is
  recognized.\<close>

lemma lower_char_letter: "is_letter (lower_char c) \<Longrightarrow> is_letter c"
  by (auto simp: lower_char_def is_letter_def code_def Let_def split: if_splits)

lemma lower_letters: "list_all is_letter (lower e) \<Longrightarrow> list_all is_letter e"
  by (induction e) (auto simp: lower_def lower_char_letter)

lemma letter_word: "is_letter c \<Longrightarrow> is_word c"
  by (simp add: is_word_def)

lemma book_extension_word:
  assumes "book_extension e"
  shows "e \<noteq> []" and "list_all is_word e"
proof -
  have l: "list_all is_letter (lower e)"
    using assms by (auto simp: book_extension_def is_letter_def code_def)
  show "e \<noteq> []" using assms by (auto simp: book_extension_def lower_def)
  show "list_all is_word e"
    using lower_letters [OF l] by (auto simp: list_all_iff letter_word)
qed

lemma lower_dot: "lower_char (CHR ''.'') = CHR ''.''"
  by (simp add: lower_char_def code_def)

lemma recognized_extension: "book_extension e \<Longrightarrow> recognized (stem @ ''.'' @ e)"
proof -
  assume "book_extension e"
  then consider "lower e = ''epub''" | "lower e = ''mobi''" | "lower e = ''pdf''"
    by (auto simp: book_extension_def)
  then show ?thesis
  proof cases
    case 1
    have "lower (stem @ ''.'' @ e) = lower stem @ ''.epub'' @ []"
      using 1 by (simp add: lower_def lower_dot)
    then have "sublist ''.epub'' (lower (stem @ ''.'' @ e))" unfolding sublist_def by blast
    then show ?thesis by (simp add: recognized_def)
  next
    case 2
    have "lower (stem @ ''.'' @ e) = lower stem @ ''.mobi'' @ []"
      using 2 by (simp add: lower_def lower_dot)
    then have "sublist ''.mobi'' (lower (stem @ ''.'' @ e))" unfolding sublist_def by blast
    then show ?thesis by (simp add: recognized_def)
  next
    case 3
    have "lower (stem @ ''.'' @ e) = lower stem @ ''.pdf'' @ []"
      using 3 by (simp add: lower_def lower_dot)
    then have "sublist ''.pdf'' (lower (stem @ ''.'' @ e))" unfolding sublist_def by blast
    then show ?thesis by (simp add: recognized_def)
  qed
qed

text \<open>The number of matches is bounded by both lengths, so the ratio is at most 1; a name
  against itself matches in every character.\<close>

lemma matches_le_left: "matches a b \<le> length a"
  by (induction a arbitrary: b) (auto intro: le_SucI)

lemma matches_le_right: "matches a b \<le> length b"
proof (induction a arbitrary: b)
  case Nil
  show ?case by simp
next
  case (Cons x a)
  show ?case
  proof (cases "x \<in> set b")
    case True
    then have l: "length (remove1 x b) = length b - 1" by (simp add: length_remove1)
    have p: "length b > 0" using True by (cases b) auto
    have "matches a (remove1 x b) \<le> length (remove1 x b)" by (rule Cons.IH)
    with l p have "Suc (matches a (remove1 x b)) \<le> length b" by linarith
    then show ?thesis using True by simp
  next
    case False
    then show ?thesis using Cons.IH [of b] by simp
  qed
qed

lemma matches_self: "matches a a = length a"
  by (induction a) auto

lemma quick_ratio_self: "quick_ratio b b = 1"
  by (simp add: quick_ratio_def matches_self)

lemma quick_ratio_le_1: "quick_ratio a b \<le> 1"
proof (cases "length a + length b = 0")
  case True
  then show ?thesis by (simp add: quick_ratio_def)
next
  case False
  have "2 * matches a b \<le> length a + length b"
    using matches_le_left [of a b] matches_le_right [of a b] by simp
  then have "(of_nat (2 * matches a b) :: rat) \<le> of_nat (length a + length b)"
    by (simp only: of_nat_le_iff)
  moreover have "0 < length a + length b" using False by simp
  then have "(0::rat) < of_nat (length a + length b)" by (simp only: of_nat_0_less_iff)
  ultimately have "(of_nat (2 * matches a b) :: rat) / of_nat (length a + length b) \<le> 1"
    by (simp only: divide_le_eq_1_pos)
  moreover have "quick_ratio a b = of_nat (2 * matches a b) / of_nat (length a + length b)"
    using False by (simp only: quick_ratio_def if_False)
  ultimately show ?thesis by (simp only:)
qed

lemma similar_to_Cons:
  "similar_to (b2 # candidates) b1 =
     (if quick_ratio b1 b2 = 1 then []
      else if 9 / 10 \<le> quick_ratio b1 b2 then (b1, b2) # similar_to candidates b1
      else similar_to candidates b1)"
  using quick_ratio_le_1 [of b1 b2] by (auto simp: similar_to_def)

lemma compareTwoDirs_inner_eq:
  "compareTwoDirs_inner b1 books2 identical similar not_found =
     (identical @ identical_to (book_base_names books2) b1,
      similar @ similar_to (book_base_names books2) b1,
      not_found \<and> not_found_in (book_base_names books2) b1 = [b1])"
proof (induction books2 arbitrary: identical similar not_found)
  case Nil
  show ?case by (simp add: book_base_names_def identical_to_def similar_to_def not_found_in_def)
next
  case (Cons book2 books2)
  show ?case
  proof (cases "has_book_ext book2")
    case False
    then have "book_base_names (book2 # books2) = book_base_names books2"
      by (simp add: book_base_names_def has_book_ext_recognized)
    then show ?thesis using False Cons.IH by simp
  next
    case True
    then have bn: "book_base_names (book2 # books2) = base_name book2 # book_base_names books2"
      by (simp add: book_base_names_def has_book_ext_recognized)
    show ?thesis
      unfolding bn similar_to_Cons
      using True Cons.IH
      by (simp add: identical_to_def not_found_in_def)
  qed
qed

lemma compareTwoDirs_loop_eq:
  "compareTwoDirs_loop books2 books identical similar different =
     (identical @ concat (map (identical_to (book_base_names books2)) (book_base_names books)),
      similar @ concat (map (similar_to (book_base_names books2)) (book_base_names books)),
      different @ concat (map (not_found_in (book_base_names books2)) (book_base_names books)))"
proof (induction books arbitrary: identical similar different)
  case Nil
  show ?case by (simp add: book_base_names_def)
next
  case (Cons book1 books)
  show ?case
  proof (cases "has_book_ext book1")
    case False
    then have "book_base_names (book1 # books) = book_base_names books"
      by (simp add: book_base_names_def has_book_ext_recognized)
    then show ?thesis using False Cons.IH by simp
  next
    case True
    then have bn: "book_base_names (book1 # books) = base_name book1 # book_base_names books"
      by (simp add: book_base_names_def has_book_ext_recognized)
    have nf: "not_found_in c b = [b] \<or> not_found_in c b = []" for c b
      by (simp add: not_found_in_def)
    show ?thesis
      unfolding bn using True Cons.IH nf [of "book_base_names books2" "base_name book1"]
      by (auto simp: compareTwoDirs_inner_eq)
  qed
qed

lemma not_found_in_iff:
  "(not_found_in candidates b1 = [b1])
     = (identical_to candidates b1 = [] \<and> similar_to candidates b1 = [])"
proof (cases "list_ex (\<lambda>b2. quick_ratio b1 b2 = 1) candidates")
  case True
  then obtain b2 where m: "b2 \<in> set candidates" and r: "quick_ratio b1 b2 = 1"
    by (auto simp: list_ex_iff)
  have "9 / 10 \<le> quick_ratio b1 b2" by (simp add: r)
  with m have "\<exists>b2\<in>set candidates. 9 / 10 \<le> quick_ratio b1 b2" by blast
  then have "list_ex (\<lambda>b2. 9 / 10 \<le> quick_ratio b1 b2) candidates"
    by (simp only: list_ex_iff)
  then show ?thesis using True by (simp add: not_found_in_def identical_to_def)
next
  case False
  then have all: "takeWhile (\<lambda>b2. quick_ratio b1 b2 \<noteq> 1) candidates = candidates"
    by (auto simp: list_ex_iff takeWhile_eq_all_conv)
  have "(filter (\<lambda>b2. 9 / 10 \<le> quick_ratio b1 b2 \<and> quick_ratio b1 b2 < 1) candidates = [])
          = (\<not> list_ex (\<lambda>b2. 9 / 10 \<le> quick_ratio b1 b2) candidates)"
    using False quick_ratio_le_1 [of b1]
    by (auto simp: list_ex_iff filter_empty_conv order_less_le)
  then show ?thesis using False by (simp add: not_found_in_def identical_to_def similar_to_def all)
qed


lemma identical_to_self: "b \<in> set candidates \<Longrightarrow> identical_to candidates b = [b]"
  using quick_ratio_self by (auto simp: identical_to_def list_ex_iff)

lemma not_found_in_self: "b \<in> set candidates \<Longrightarrow> not_found_in candidates b = []"
proof -
  assume "b \<in> set candidates"
  moreover have "(9 / 10 :: rat) \<le> quick_ratio b b" by (simp add: quick_ratio_self)
  ultimately have "\<exists>b2\<in>set candidates. 9 / 10 \<le> quick_ratio b b2" by blast
  then show ?thesis by (simp add: not_found_in_def list_ex_iff)
qed

lemma not_found_in_subset: "set (not_found_in candidates b1) \<subseteq> {b1}"
  by (simp add: not_found_in_def)

text \<open>
  Claim C6. In the comparison of two directories, for the recognized entries: a pair with
  ratio 1 is classified as identical; a compared pair with a ratio of at least 0.9 and
  below 1 is classified as similar; a name of the first directory is reported as not found
  exactly when it has no identical and no similar counterpart. The three lists the
  function builds are, name by name, the ones defined above from these words, and the
  entries that are not recognized have no part in them. Equal base names have ratio 1 and
  are never in the list of similar pairs. Two names that differ in their book extension
  only have the same base name, which is the stem itself when the stem is plain; their
  ratio is 1, and when the first is in the first directory and the second in the second,
  the base name is in the list of identical names and not in the list of names not found.
\<close>

theorem compareTwoDirs_classifies:
  "compareTwoDirs books2 books =
     (concat (map (identical_to (book_base_names books2)) (book_base_names books)),
      concat (map (similar_to (book_base_names books2)) (book_base_names books)),
      concat (map (not_found_in (book_base_names books2)) (book_base_names books)))
   \<and> compareTwoDirs books2 books
       = compareTwoDirs (filter recognized books2) (filter recognized books)
   \<and> (not_found_in (book_base_names books2) b1 = [b1])
       = (identical_to (book_base_names books2) b1 = []
          \<and> similar_to (book_base_names books2) b1 = [])
   \<and> quick_ratio b b = 1
   \<and> (b, b) \<notin> set (fst (snd (compareTwoDirs books2 books)))
   \<and> (book_extension e1 \<longrightarrow> book_extension e2 \<longrightarrow>
        recognized (stem @ ''.'' @ e1)
        \<and> base_name (stem @ ''.'' @ e1) = base_name (stem @ ''.'' @ e2)
        \<and> quick_ratio (base_name (stem @ ''.'' @ e1)) (base_name (stem @ ''.'' @ e2)) = 1
        \<and> (plain stem \<longrightarrow> base_name (stem @ ''.'' @ e1) = stem)
        \<and> (stem @ ''.'' @ e1 \<in> set books \<longrightarrow> stem @ ''.'' @ e2 \<in> set books2 \<longrightarrow>
             base_name (stem @ ''.'' @ e1) \<in> set (fst (compareTwoDirs books2 books))
             \<and> base_name (stem @ ''.'' @ e1) \<notin> set (snd (snd (compareTwoDirs books2 books)))))"
proof -
  have eq: "compareTwoDirs xs2 xs =
     (concat (map (identical_to (book_base_names xs2)) (book_base_names xs)),
      concat (map (similar_to (book_base_names xs2)) (book_base_names xs)),
      concat (map (not_found_in (book_base_names xs2)) (book_base_names xs)))" for xs2 xs
    by (simp add: compareTwoDirs_def compareTwoDirs_loop_eq)
  have flt: "book_base_names (filter recognized xs) = book_base_names xs" for xs
    by (simp add: book_base_names_def)
  have skipped: "compareTwoDirs books2 books
       = compareTwoDirs (filter recognized books2) (filter recognized books)"
    by (simp only: eq flt)
  have "(b, b) \<notin> set (similar_to c b1)" for c b1
    by (auto simp: similar_to_def quick_ratio_self)
  then have never: "(b, b) \<notin> set (fst (snd (compareTwoDirs books2 books)))"
    unfolding eq by auto
  have ext: "recognized (stem @ ''.'' @ e1)
        \<and> base_name (stem @ ''.'' @ e1) = base_name (stem @ ''.'' @ e2)
        \<and> quick_ratio (base_name (stem @ ''.'' @ e1)) (base_name (stem @ ''.'' @ e2)) = 1
        \<and> (plain stem \<longrightarrow> base_name (stem @ ''.'' @ e1) = stem)
        \<and> (stem @ ''.'' @ e1 \<in> set books \<longrightarrow> stem @ ''.'' @ e2 \<in> set books2 \<longrightarrow>
             base_name (stem @ ''.'' @ e1) \<in> set (fst (compareTwoDirs books2 books))
             \<and> base_name (stem @ ''.'' @ e1) \<notin> set (snd (snd (compareTwoDirs books2 books))))"
    if e1: "book_extension e1" and e2: "book_extension e2"
  proof -
    let ?b1 = "base_name (stem @ ''.'' @ e1)"
    have r1: "recognized (stem @ ''.'' @ e1)" using e1 by (rule recognized_extension)
    have r2: "recognized (stem @ ''.'' @ e2)" using e2 by (rule recognized_extension)
    have same: "?b1 = base_name (stem @ ''.'' @ e2)"
      using book_extension_word [OF e1] book_extension_word [OF e2]
      by (rule base_name_same_stem)
    have ratio: "quick_ratio ?b1 (base_name (stem @ ''.'' @ e2)) = 1"
      unfolding same [symmetric] by (rule quick_ratio_self)
    have pl: "plain stem \<longrightarrow> ?b1 = stem"
      using base_name_plain [OF book_extension_word [OF e1]] by blast
    have lists: "?b1 \<in> set (fst (compareTwoDirs books2 books))
             \<and> ?b1 \<notin> set (snd (snd (compareTwoDirs books2 books)))"
      if m1: "stem @ ''.'' @ e1 \<in> set books" and m2: "stem @ ''.'' @ e2 \<in> set books2"
    proof -
      have n1: "?b1 \<in> set (book_base_names books)"
        using m1 r1 by (auto simp: book_base_names_def)
      have "base_name (stem @ ''.'' @ e2) \<in> set (book_base_names books2)"
        using m2 r2 by (auto simp: book_base_names_def)
      then have c1: "?b1 \<in> set (book_base_names books2)" using same by simp
      have "?b1 \<in> set (identical_to (book_base_names books2) ?b1)"
        using identical_to_self [OF c1] by simp
      then have i: "?b1 \<in> set (fst (compareTwoDirs books2 books))"
        unfolding eq using n1 by auto
      have "?b1 \<notin> set (not_found_in (book_base_names books2) x)" for x
        using not_found_in_self [OF c1] not_found_in_subset [of "book_base_names books2" x]
        by (cases "x = ?b1") auto
      then have "?b1 \<notin> set (snd (snd (compareTwoDirs books2 books)))"
        unfolding eq by auto
      with i show ?thesis by simp
    qed
    show ?thesis using r1 same ratio pl lists by blast
  qed
  show ?thesis
    using eq [of books2 books] skipped not_found_in_iff [of "book_base_names books2" b1]
      quick_ratio_self [of b] never ext
    by blast
qed

theorem compareTwoDirs_classifies_witness:
  "book_extension ''epub'' \<and> book_extension ''MOBI'' \<and> plain ''Great War''
   \<and> ''Great War.epub'' \<in> set [''Great War.epub'', ''zzz.epub'', ''notes.azw'']
   \<and> ''Great War.MOBI'' \<in> set [''list.txt'', ''Great War.MOBI'']
   \<and> recognized ''Great War.epub''
   \<and> base_name ''Great War.epub'' = ''Great War''
   \<and> base_name ''Great War.MOBI'' = ''Great War''
   \<and> compareTwoDirs [''list.txt'', ''Great War.MOBI''] [''Great War.epub'', ''zzz.epub'', ''notes.azw'']
       = ([''Great War''], [], [''zzz''])
   \<and> ''Great War'' \<in> set (fst (compareTwoDirs [''list.txt'', ''Great War.MOBI'']
                                  [''Great War.epub'', ''zzz.epub'', ''notes.azw'']))
   \<and> ''Great War'' \<notin> set (snd (snd (compareTwoDirs [''list.txt'', ''Great War.MOBI'']
                                  [''Great War.epub'', ''zzz.epub'', ''notes.azw''])))"
proof -
  have e1: "book_extension ''epub''" and e2: "book_extension ''MOBI''"
    by (simp_all add: book_extension_def) code_simp+
  have pl: "plain ''Great War''" by code_simp
  have m1: "''Great War'' @ ''.'' @ ''epub'' \<in> set [''Great War.epub'', ''zzz.epub'', ''notes.azw'']"
    by simp
  have m2: "''Great War'' @ ''.'' @ ''MOBI'' \<in> set [''list.txt'', ''Great War.MOBI'']" by simp
  have run: "compareTwoDirs [''list.txt'', ''Great War.MOBI'']
               [''Great War.epub'', ''zzz.epub'', ''notes.azw''] = ([''Great War''], [], [''zzz''])"
    by code_simp
  from compareTwoDirs_classifies [where ?e1.0 = "''epub''" and ?e2.0 = "''MOBI''"
      and stem = "''Great War''" and books = "[''Great War.epub'', ''zzz.epub'', ''notes.azw'']"
      and ?books2.0 = "[''list.txt'', ''Great War.MOBI'']"] e1 e2 pl m1 m2
  have "recognized (''Great War'' @ ''.'' @ ''epub'')"
    and "base_name (''Great War'' @ ''.'' @ ''epub'') = base_name (''Great War'' @ ''.'' @ ''MOBI'')"
    and "base_name (''Great War'' @ ''.'' @ ''epub'') = ''Great War''"
    and "base_name (''Great War'' @ ''.'' @ ''epub'')
           \<in> set (fst (compareTwoDirs [''list.txt'', ''Great War.MOBI'']
                          [''Great War.epub'', ''zzz.epub'', ''notes.azw'']))"
    and "base_name (''Great War'' @ ''.'' @ ''epub'')
           \<notin> set (snd (snd (compareTwoDirs [''list.txt'', ''Great War.MOBI'']
                          [''Great War.epub'', ''zzz.epub'', ''notes.azw''])))"
    by blast+
  then show ?thesis using e1 e2 pl run by simp
qed

text \<open>An example with an identical pair, a pair of anagrams (ratio 1 as well), two similar
  pairs and a name that is not found.\<close>

lemma compareTwoDirs_example:
  "compareTwoDirs [''ab.epub'', ''x.txt'', ''Great War.mobi'', ''Great Wars.pdf''] [''ba.pdf'', ''Great War.epub'', ''Great Wart.epub'', ''zzz.epub'', ''readme.txt'']
  = ([''ba'', ''Great War''], [(''Great Wart'', ''Great War''), (''Great Wart'', ''Great Wars'')], [''zzz''])"
  by code_simp

section \<open>withoutAuthors: the name it computes, applied twice\<close>

text \<open>Facts on the matcher that the patterns of \<^verbatim>\<open>withoutAuthors\<close> need: a match
  cannot start at a character that the pattern refuses, and a search passes over such
  characters.\<close>

lemmas chr_defs = chr_comma_def chr_dot_def chr_hyphen_def chr_underscore_def chr_space_def

lemma is_space_space [simp]: "is_space (CHR '' '')"
  by (simp add: is_space_def code_def)

lemma any_char_simps [simp]:
  "any_char (CHR '' '')" "any_char (CHR '','')" "any_char (CHR ''.'')" "any_char (CHR ''_'')"
  by (simp_all add: any_char_def)

lemma search_prefix: "mt p t \<noteq> None \<Longrightarrow> search p (u @ t) \<noteq> None"
  by (induction u) (cases t; auto split: option.splits)+

lemma search_skip:
  assumes "\<And>c cs. c \<in> set u \<Longrightarrow> mt p (c # cs) = None"
  shows "search p (u @ t) =
           (case search p t of None \<Rightarrow> None | Some (pre, m, post) \<Rightarrow> Some (u @ pre, m, post))"
  using assms
proof (induction u)
  case Nil
  show ?case by (simp split: option.splits)
next
  case (Cons c u)
  have "mt p (c # u @ t) = None" using Cons.prems by simp
  moreover have "search p (u @ t) =
           (case search p t of None \<Rightarrow> None | Some (pre, m, post) \<Rightarrow> Some (u @ pre, m, post))"
    using Cons by simp
  ultimately show ?case by (simp split: option.splits)
qed

lemma search_none:
  assumes "\<And>c cs. c \<in> set s \<Longrightarrow> mt p (c # cs) = None" and "mt p [] = None"
  shows "search p s = None"
  using search_skip [of s p "[]"] assms by simp

lemma sub_all_skip:
  assumes "\<And>c cs. c \<in> set u \<Longrightarrow> mt p (c # cs) = None"
  shows "sub_all p repl (u @ t) = u @ sub_all p repl t"
  using assms by (induction u) simp_all

lemma sub_all_none:
  assumes "\<And>c cs. c \<in> set s \<Longrightarrow> mt p (c # cs) = None" and "mt p [] = None"
  shows "sub_all p repl s = s"
  using sub_all_skip [of s p repl "[]"] assms by simp

lemma mt_lit: "mt (lit s @ r) (s @ t) = mt r t"
  by (induction s) (simp_all add: lit_def is_chr_def)

text \<open>The removal of the authors: \<^verbatim>\<open>pattern1\<close> needs a hyphen, and on a name of
  the grammar its first match ends at the first separator.\<close>

lemma separator_needs_hyphen:
  "chr_hyphen \<notin> set (take 2 s) \<Longrightarrow> mt p_separator s = None"
  by (cases s; cases "tl s") (auto simp: p_separator_def is_chr_def)

lemma pattern1_needs_hyphen: "chr_hyphen \<notin> set s \<Longrightarrow> mt pattern1 s = None"
proof (induction s)
  case Nil
  show ?case by (simp add: pattern1_def)
next
  case (Cons c s)
  then have "chr_hyphen \<notin> set (take 2 s)" by (auto dest: in_set_takeD)
  then have "mt p_separator s = None" by (rule separator_needs_hyphen)
  then show ?case using Cons by (simp add: pattern1_def)
qed

lemma search_none_hereditary:
  assumes "\<And>t. Q t \<Longrightarrow> mt p t = None" and "\<And>c t. Q (c # t) \<Longrightarrow> Q t" and "Q s"
  shows "search p s = None"
  using assms(3)
proof (induction s)
  case Nil
  then show ?case using assms(1) by simp
next
  case (Cons c s)
  then have "Q s" using assms(2) by blast
  then show ?case using Cons assms(1) by simp
qed

lemma search_at_start:
  "mt p s = Some rest \<Longrightarrow> search p s = Some ([], take (length s - length rest) s, rest)"
  by (cases s) simp_all

lemma sub_first_none: "search p s = None \<Longrightarrow> sub_first p repl s = s"
  by (simp add: sub_first_def)

lemma sub_first_skip:
  assumes "\<And>c cs. c \<in> set u \<Longrightarrow> mt p (c # cs) = None" and "mt p t = Some rest"
  shows "sub_first p repl (u @ t) = u @ repl @ rest"
  using search_skip [of u p t, OF assms(1)] search_at_start [OF assms(2)]
  by (simp add: sub_first_def)

lemma noauthor_of_none: "chr_hyphen \<notin> set s \<Longrightarrow> noauthor_of s = s"
proof -
  assume h: "chr_hyphen \<notin> set s"
  have "search pattern1 s = None"
    by (rule search_none_hereditary [where Q = "\<lambda>t. chr_hyphen \<notin> set t"])
       (use h pattern1_needs_hyphen in auto)
  then show ?thesis by (simp add: noauthor_of_def sub_first_none)
qed

lemma pattern1_at_separator:
  assumes "as \<noteq> []" and "chr_hyphen \<notin> set as" and "list_all any_char as"
  shows "mt pattern1 (as @ '' - '' @ rest) = Some rest"
  using assms
proof (induction as rule: list_nonempty_induct)
  case (single a)
  then show ?case
    by (simp add: pattern1_def p_separator_def is_chr_def chr_defs)
next
  case (cons a as)
  have "set (take 2 (as @ '' - '' @ rest)) \<subseteq> set as \<union> {CHR '' ''}"
    using cons.hyps by (cases as; cases "tl as") auto
  then have "chr_hyphen \<notin> set (take 2 (as @ '' - '' @ rest))"
    using cons.prems by (auto simp: chr_defs)
  then have "mt p_separator (as @ '' - '' @ rest) = None" by (rule separator_needs_hyphen)
  moreover have "mt pattern1 (as @ '' - '' @ rest) = Some rest" using cons by simp
  ultimately show ?case using cons.prems by (simp add: pattern1_def)
qed

lemma noauthor_of_grammar:
  assumes "authors \<noteq> []" and "free_of ''-'' authors"
  shows "noauthor_of (authors @ '' - '' @ rest) = rest"
proof -
  have "chr_hyphen \<notin> set authors" and "list_all any_char authors"
    using assms(2) by (auto simp: free_of_def list_all_iff chr_defs)
  from pattern1_at_separator [OF assms(1) this]
  have "mt pattern1 (authors @ '' - '' @ rest) = Some rest" .
  from search_at_start [OF this] show ?thesis by (simp add: noauthor_of_def sub_first_def)
qed


text \<open>The test for an article at the end of the name: a match holds the text
  \<^verbatim>\<open>, A.\<close>, so a name without comma has none, and a name with one comma has the
  article that stands after it and no other.\<close>

lemma mt_Plus_split:
  "mt (Plus P # r) t = Some x \<Longrightarrow> \<exists>u t'. t = u @ t' \<and> mt r t' = Some x"
proof (induction t)
  case Nil
  then show ?case by simp
next
  case (Cons c t)
  show ?case
  proof (cases "mt (Plus P # r) t")
    case None
    with Cons.prems have "mt r t = Some x" by (simp split: if_splits)
    then have "c # t = [c] @ t \<and> mt r t = Some x" by simp
    then show ?thesis by blast
  next
    case (Some y)
    with Cons.prems have "y = x" by (simp split: if_splits)
    with Some Cons.IH obtain u t' where "t = u @ t'" and "mt r t' = Some x" by blast
    then have "c # t = (c # u) @ t' \<and> mt r t' = Some x" by simp
    then show ?thesis by blast
  qed
qed

lemma mt_lit_split: "mt (lit s @ r) t = Some x \<Longrightarrow> \<exists>t'. t = s @ t' \<and> mt r t' = Some x"
proof (induction s arbitrary: t)
  case Nil
  then show ?case by (simp add: lit_def)
next
  case (Cons a s)
  then obtain t1 where t: "t = a # t1" and "mt (lit s @ r) t1 = Some x"
    by (cases t) (auto simp: lit_def is_chr_def split: if_splits)
  with Cons.IH obtain t' where "t1 = s @ t'" and "mt r t' = Some x" by blast
  then show ?case using t by simp
qed

lemma search_split: "search p s = Some (pre, m, post) \<Longrightarrow> \<exists>t. s = pre @ t \<and> mt p t = Some post"
proof (induction s arbitrary: pre)
  case Nil
  then show ?case by (simp split: option.splits)
next
  case (Cons c s)
  show ?case
  proof (cases "mt p (c # s)")
    case (Some rest)
    with Cons.prems show ?thesis by auto
  next
    case None
    with Cons.prems obtain pre' where "search p s = Some (pre', m, post)" and "pre = c # pre'"
      by (auto split: option.splits)
    with Cons.IH show ?thesis by fastforce
  qed
qed

lemma article_at_end_occurs:
  assumes "article_at_end a n name"
  shows "\<exists>u v. name = u @ '', '' @ a @ ''.'' @ v"
proof -
  from assms obtain pre m post where "search (p_article_end a) (last_n n name) = Some (pre, m, post)"
    by (auto simp: article_at_end_def re_search_def)
  from search_split [OF this] obtain t where w: "last_n n name = pre @ t"
    and "mt (p_article_end a) t = Some post" by blast
  then have "mt (Plus any_char # lit ('', '' @ a) @ [One (is_chr chr_dot)]) t = Some post"
    by (simp add: p_article_end_def)
  from mt_Plus_split [OF this] obtain u1 t1 where t: "t = u1 @ t1"
    and "mt (lit ('', '' @ a) @ [One (is_chr chr_dot)]) t1 = Some post" by blast
  from mt_lit_split [OF this(2)] obtain t2 where t1: "t1 = ('', '' @ a) @ t2"
    and "mt [One (is_chr chr_dot)] t2 = Some post" by blast
  then have t2: "t2 = ''.'' @ post"
    by (cases t2) (auto simp: is_chr_def chr_defs split: if_splits)
  have "name = take (length name - n) name @ last_n n name" by (simp add: last_n_def)
  then have "name = (take (length name - n) name @ pre @ u1) @ '', '' @ a @ ''.'' @ post"
    using w t t1 t2 by simp
  then show ?thesis by blast
qed

lemma no_comma_no_article: "chr_comma \<notin> set name \<Longrightarrow> \<not> article_at_end a n name"
proof
  assume "chr_comma \<notin> set name" and "article_at_end a n name"
  from article_at_end_occurs [OF this(2)] obtain u v where "name = u @ '', '' @ a @ ''.'' @ v"
    by blast
  then have "chr_comma \<in> set name" by (simp add: chr_defs)
  with \<open>chr_comma \<notin> set name\<close> show False by simp
qed

lemma unique_split:
  "x \<notin> set p2 \<Longrightarrow> x \<notin> set r2 \<Longrightarrow> p1 @ x # r1 = p2 @ x # r2 \<Longrightarrow> p1 = p2 \<and> r1 = r2"
proof (induction p1 arbitrary: p2)
  case Nil
  then show ?case by (cases p2) auto
next
  case (Cons y p1)
  show ?case
  proof (cases p2)
    case Nil
    with Cons.prems show ?thesis by auto
  next
    case (Cons z p2')
    with Cons.prems Cons.IH [of p2'] show ?thesis by auto
  qed
qed

lemma other_article_absent:
  assumes "chr_comma \<notin> set pre" and "chr_comma \<notin> set ext"
    and "a \<in> {''A'', ''An'', ''The''}" and "b \<in> {''A'', ''An'', ''The''}" and "a \<noteq> b"
  shows "\<not> article_at_end a n (pre @ '', '' @ b @ ''.'' @ ext)"
proof
  assume "article_at_end a n (pre @ '', '' @ b @ ''.'' @ ext)"
  from article_at_end_occurs [OF this] obtain u v
    where eq: "pre @ '', '' @ b @ ''.'' @ ext = u @ '', '' @ a @ ''.'' @ v" by blast
  have "chr_comma \<notin> set ('' '' @ b @ ''.'' @ ext)"
    using assms(2) assms(4) by (auto simp: chr_defs)
  with assms(1) eq have "u = pre \<and> '' '' @ a @ ''.'' @ v = '' '' @ b @ ''.'' @ ext"
    using unique_split [of chr_comma pre "'' '' @ b @ ''.'' @ ext" u "'' '' @ a @ ''.'' @ v"]
    by (simp add: chr_defs)
  then have "a @ ''.'' @ v = b @ ''.'' @ ext" by simp
  then show False using assms(3) assms(4) assms(5) by auto
qed

lemma mt_Plus_step: "P c \<Longrightarrow> mt r t \<noteq> None \<Longrightarrow> mt (Plus P # r) (c # t) \<noteq> None"
  by (simp split: option.splits)

lemma article_present:
  assumes "pre \<noteq> []" and "any_char (last pre)" and "length a + 4 + length ext \<le> n"
  shows "article_at_end a n (pre @ '', '' @ a @ ''.'' @ ext)"
proof -
  let ?name = "pre @ '', '' @ a @ ''.'' @ ext"
  let ?t = "last pre # '', '' @ a @ ''.'' @ ext"
  have name: "?name = butlast pre @ ?t" using assms(1) by simp
  have "length ?name - n \<le> length (butlast pre)" using assms(1) assms(3) by simp
  then have "last_n n ?name = drop (length ?name - n) (butlast pre) @ ?t"
    unfolding last_n_def by (subst name) simp
  moreover have "mt (p_article_end a) ?t \<noteq> None"
  proof -
    have "mt (lit ('', '' @ a) @ [One (is_chr chr_dot)]) (('', '' @ a) @ ''.'' @ ext) = Some ext"
      by (simp only: mt_lit) (simp add: is_chr_def chr_defs)
    then show ?thesis
      using assms(2) by (simp add: p_article_end_def mt_Plus_step [simplified] split: option.splits)
  qed
  ultimately show ?thesis
    unfolding article_at_end_def re_search_def using search_prefix by metis
qed

text \<open>The substitution that takes the article from the end.\<close>

lemma article_cut_needs_comma: "c \<noteq> chr_comma \<Longrightarrow> mt (p_article_cut a) (c # cs) = None"
  by (simp add: p_article_cut_def is_chr_def)

lemma article_cut_empty: "mt (p_article_cut a) [] = None"
  by (simp add: p_article_cut_def)

lemma cut_article_grammar:
  assumes "chr_comma \<notin> set pre" and "chr_comma \<notin> set ext"
  shows "cut_article a (pre @ '', '' @ a @ ''.'' @ ext) = pre @ ''.'' @ ext"
proof -
  have skip: "mt (p_article_cut a) (c # cs) = None" if "c \<in> set pre" for c cs
    using that assms(1) by (auto intro: article_cut_needs_comma)
  have "mt (lit a @ [One (is_chr chr_dot)]) (a @ ''.'' @ ext) = Some ext"
    by (simp only: mt_lit) (simp add: is_chr_def chr_defs)
  then have here: "mt (p_article_cut a) ('', '' @ a @ ''.'' @ ext) = Some ext"
    by (simp add: p_article_cut_def is_chr_def chr_defs)
  have rest: "sub_all (p_article_cut a) ''.'' ext = ext"
  proof (rule sub_all_none)
    fix c cs assume "c \<in> set ext"
    then have "c \<noteq> chr_comma" using assms(2) by auto
    then show "mt (p_article_cut a) (c # cs) = None" by (rule article_cut_needs_comma)
  next
    show "mt (p_article_cut a) [] = None" by (rule article_cut_empty)
  qed
  have "sub_all (p_article_cut a) ''.'' ('', '' @ a @ ''.'' @ ext) = ''.'' @ ext"
    using here rest by simp
  then show ?thesis
    unfolding cut_article_def using sub_all_skip [of pre "p_article_cut a" "''.''", OF skip]
    by simp
qed

text \<open>The removal of the subtitle: \<^verbatim>\<open>pattern2\<close> starts at an underscore and its
  greedy \<^verbatim>\<open>.+\<close> runs to the last dot of the name.\<close>

lemma pattern2_needs_underscore: "c \<noteq> chr_underscore \<Longrightarrow> mt pattern2 (c # cs) = None"
  by (simp add: pattern2_def is_chr_def)

lemma pattern2_empty: "mt pattern2 [] = None"
  by (simp add: pattern2_def)

lemma no_underscore_no_subtitle:
  "chr_underscore \<notin> set s \<Longrightarrow> sub_first pattern2 [] s = s"
proof -
  assume "chr_underscore \<notin> set s"
  then have "search pattern2 s = None"
    by (intro search_none) (auto intro: pattern2_needs_underscore pattern2_empty)
  then show ?thesis by (rule sub_first_none)
qed

lemma no_dot_no_ahead:
  "chr_dot \<notin> set t \<Longrightarrow>
   mt [Plus any_char, Ahead (is_chr chr_dot)] t = None \<and> mt [Ahead (is_chr chr_dot)] t = None"
  by (induction t) (auto simp: is_chr_def)

lemma is_chr_same: "is_chr c c"
  by (simp add: is_chr_def)

lemma greedy_to_last_dot:
  assumes "st \<noteq> []" and "list_all any_char st" and "chr_dot \<notin> set ext"
  shows "mt [Plus any_char, Ahead (is_chr chr_dot)] (st @ chr_dot # ext) = Some (chr_dot # ext)"
  using assms(1) assms(2)
proof (induction st rule: list_nonempty_induct)
  case (single c)
  have n: "mt [Plus any_char, Ahead (is_chr chr_dot)] ext = None"
    "mt [Ahead (is_chr chr_dot)] ext = None"
    using no_dot_no_ahead [OF assms(3)] by simp_all
  have d: "mt [Plus any_char, Ahead (is_chr chr_dot)] (chr_dot # ext) = None"
    by (simp add: n)
  have e: "mt [Ahead (is_chr chr_dot)] (chr_dot # ext) = Some (chr_dot # ext)"
    by (simp add: is_chr_same)
  have ac: "any_char c" using single by simp
  have "mt [Plus any_char, Ahead (is_chr chr_dot)] (c # chr_dot # ext) = Some (chr_dot # ext)"
    by (subst mt.simps) (simp only: ac if_True d e option.case)
  then show ?case by simp
next
  case (cons c st)
  then show ?case by simp
qed

lemma subtitle_removed:
  assumes "chr_underscore \<notin> set title" and "st \<noteq> []" and "list_all any_char st"
    and "chr_dot \<notin> set ext"
  shows "sub_first pattern2 [] (title @ ''_ '' @ st @ ''.'' @ ext) = title @ ''.'' @ ext"
proof -
  have skip: "mt pattern2 (c # cs) = None" if "c \<in> set title" for c cs
    using that assms(1) by (auto intro: pattern2_needs_underscore)
  have "mt pattern2 (chr_underscore # chr_space # st @ chr_dot # ext) = Some (chr_dot # ext)"
    using greedy_to_last_dot [OF assms(2) assms(3) assms(4)]
    by (simp add: pattern2_def is_chr_same) (simp add: is_chr_def chr_defs is_space_def code_def)
  then have "mt pattern2 (''_ '' @ st @ ''.'' @ ext) = Some (''.'' @ ext)"
    by (simp add: chr_defs)
  from sub_first_skip [of title pattern2, OF skip this] show ?thesis by simp
qed

text \<open>A name without hyphen, underscore and comma stays as it is.\<close>

lemma title_of_plain:
  assumes "chr_comma \<notin> set y" and "chr_underscore \<notin> set y"
  shows "title_of y = y"
  using no_comma_no_article [OF assms(1)] no_underscore_no_subtitle [OF assms(2)]
  by (simp add: title_of_def)

lemma strip_to_title_plain:
  assumes "y \<noteq> []" and "chr_hyphen \<notin> set y" and "chr_comma \<notin> set y"
    and "chr_underscore \<notin> set y"
  shows "strip_to_title y = Inr y"
proof -
  have "last y \<in> set y" using assms(1) by simp
  then have "last y \<noteq> chr_underscore" using assms(4) by auto
  then show ?thesis
    using assms(1) noauthor_of_none [OF assms(2)] title_of_plain [OF assms(3) assms(4)]
    by (simp add: strip_to_title_def)
qed

lemma free_of_set: "free_of ds s \<Longrightarrow> c \<in> set s \<Longrightarrow> c \<notin> set ds \<and> any_char c"
  by (simp add: free_of_def list_all_iff)

text \<open>What a match leaves is an end of the text, and a pattern that starts with a character
  takes at least one.\<close>

lemma mt_suffix: "mt p t = Some r \<Longrightarrow> suffix r t"
proof (induction p t arbitrary: r rule: mt.induct)
  case (1 s)
  then show ?case by simp
next
  case (3 P r' c cs)
  then show ?case by (auto split: if_splits intro: suffix_ConsI)
next
  case (5 P r' c cs)
  then show ?case by (auto split: if_splits option.splits intro: suffix_ConsI)
next
  case (7 P r' c cs)
  then show ?case by (auto split: if_splits option.splits intro: suffix_ConsI)
next
  case (9 P r' c cs)
  then show ?case by (auto split: if_splits)
qed simp_all

lemma mt_length: "mt p t = Some r \<Longrightarrow> length r \<le> length t"
  using mt_suffix suffix_length_le by blast

lemma takes_one_One: "mt (One P # p) t = Some r \<Longrightarrow> length r < length t"
proof -
  assume m: "mt (One P # p) t = Some r"
  then obtain c cs where t: "t = c # cs" by (cases t) auto
  then have "mt p cs = Some r" using m by (auto split: if_splits)
  then show "length r < length t" using mt_length t by fastforce
qed

lemma takes_one_Plus: "mt (Plus P # p) t = Some r \<Longrightarrow> length r < length t"
proof -
  assume m: "mt (Plus P # p) t = Some r"
  then obtain c cs where t: "t = c # cs" by (cases t) auto
  then have "mt (Plus P # p) cs = Some r \<or> mt p cs = Some r"
    using m by (auto split: if_splits option.splits)
  then show "length r < length t" using mt_length t by fastforce
qed

lemma takes_one_LazyPlus: "mt (LazyPlus P # p) t = Some r \<Longrightarrow> length r < length t"
proof -
  assume m: "mt (LazyPlus P # p) t = Some r"
  then obtain c cs where t: "t = c # cs" by (cases t) auto
  then have "mt (LazyPlus P # p) cs = Some r \<or> mt p cs = Some r"
    using m by (auto split: if_splits option.splits)
  then show "length r < length t" using mt_length t by fastforce
qed

lemma sub_first_length:
  assumes "\<And>t r. mt p t = Some r \<Longrightarrow> length r < length t"
  shows "length (sub_first p [] s) \<le> length s"
    and "search p s \<noteq> None \<Longrightarrow> length (sub_first p [] s) < length s"
proof -
  have "length (sub_first p [] s) < length s" if "search p s \<noteq> None"
  proof -
    from that obtain pre m post where f: "search p s = Some (pre, m, post)" by auto
    from search_split [OF this] obtain t where s: "s = pre @ t" and mt: "mt p t = Some post"
      by blast
    have "length post < length t" using assms [OF mt] .
    then show ?thesis using f s by (simp add: sub_first_def)
  qed
  then show "search p s \<noteq> None \<Longrightarrow> length (sub_first p [] s) < length s" .
  then show "length (sub_first p [] s) \<le> length s"
    by (cases "search p s") (auto simp: sub_first_def intro: less_imp_le)
qed

lemma sub_all_length:
  assumes "\<And>t r. mt p t = Some r \<Longrightarrow> length r < length t"
  shows "length (sub_all p [x] s) \<le> length s"
proof (induction s rule: length_induct)
  case (1 s)
  show ?case
  proof (cases s)
    case Nil
    have "mt p [] = None"
    proof (rule ccontr)
      assume "mt p [] \<noteq> None"
      then obtain a where "mt p [] = Some a" by auto
      from assms [OF this] show False by simp
    qed
    then show ?thesis using Nil by simp
  next
    case (Cons c cs)
    show ?thesis
    proof (cases "mt p (c # cs)")
      case None
      then show ?thesis using Cons 1 by simp
    next
      case (Some rest)
      from assms [OF this] have l: "length rest < length s" unfolding Cons .
      then have "length (sub_all p [x] rest) \<le> length rest" using 1 by simp
      then show ?thesis using Some Cons l by simp
    qed
  qed
qed

text \<open>The three searches of \<^verbatim>\<open>withoutAuthors\<close>, said without patterns.\<close>

lemma mt_search: "mt p s \<noteq> None \<Longrightarrow> search p s \<noteq> None"
  using search_prefix [of p s "[]"] by simp

lemma search_Cons:
  "(search p (c # s) \<noteq> None) = (mt p (c # s) \<noteq> None \<or> search p s \<noteq> None)"
  by (auto split: option.splits)

lemma mt_Plus_Cons:
  "(mt (Plus P # r) (c # s) \<noteq> None) = (P c \<and> (mt (Plus P # r) s \<noteq> None \<or> mt r s \<noteq> None))"
  by (auto split: option.splits)

lemma mt_LazyPlus_Cons:
  "(mt (LazyPlus P # r) (c # s) \<noteq> None)
     = (P c \<and> (mt (LazyPlus P # r) s \<noteq> None \<or> mt r s \<noteq> None))"
  by (auto split: option.splits)

lemma search_Plus_after:
  assumes "\<And>s. (mt r s \<noteq> None) = Q s"
  shows "(search (Plus any_char # r) s \<noteq> None) = after_char Q s"
proof (induction s)
  case Nil
  show ?case by simp
next
  case (Cons c s)
  have ac: "any_char c = (c \<noteq> CHR 0x0A)" by (simp add: any_char_def)
  have ms: "mt (Plus any_char # r) s \<noteq> None \<Longrightarrow> search (Plus any_char # r) s \<noteq> None"
    by (rule mt_search)
  show ?case
    unfolding search_Cons mt_Plus_Cons after_char.simps ac
    using Cons assms [of s] ms by blast
qed

lemma search_LazyPlus_after:
  assumes "\<And>s. (mt r s \<noteq> None) = Q s"
  shows "(search (LazyPlus any_char # r) s \<noteq> None) = after_char Q s"
proof (induction s)
  case Nil
  show ?case by simp
next
  case (Cons c s)
  have ac: "any_char c = (c \<noteq> CHR 0x0A)" by (simp add: any_char_def)
  have ms: "mt (LazyPlus any_char # r) s \<noteq> None \<Longrightarrow> search (LazyPlus any_char # r) s \<noteq> None"
    by (rule mt_search)
  show ?case
    unfolding search_Cons mt_LazyPlus_Cons after_char.simps ac
    using Cons assms [of s] ms by blast
qed

lemma mt_separator: "(mt p_separator s \<noteq> None) = separator_at s"
  by (cases s rule: separator_at.cases)
     (auto simp: p_separator_def is_chr_def chr_hyphen_def)

lemma search_pattern1: "(search pattern1 s \<noteq> None) = has_separator s"
  unfolding pattern1_def has_separator_def
  by (rule search_LazyPlus_after) (rule mt_separator)

lemma mt_article: "(mt (lit ('', '' @ a) @ [One (is_chr chr_dot)]) s \<noteq> None) = prefix ('', '' @ a @ ''.'') s"
proof
  assume "mt (lit ('', '' @ a) @ [One (is_chr chr_dot)]) s \<noteq> None"
  then obtain x where "mt (lit ('', '' @ a) @ [One (is_chr chr_dot)]) s = Some x" by auto
  from mt_lit_split [OF this] obtain t where s: "s = ('', '' @ a) @ t"
    and m: "mt [One (is_chr chr_dot)] t = Some x" by blast
  from m have "t = CHR ''.'' # x"
    by (cases t) (auto simp: is_chr_def chr_dot_def split: if_splits)
  then show "prefix ('', '' @ a @ ''.'') s" using s by (simp add: prefix_def)
next
  assume "prefix ('', '' @ a @ ''.'') s"
  then obtain z where "s = ('', '' @ a) @ ''.'' @ z" by (auto simp: prefix_def)
  then show "mt (lit ('', '' @ a) @ [One (is_chr chr_dot)]) s \<noteq> None"
    using mt_lit [of "'', '' @ a" "[One (is_chr chr_dot)]" "''.'' @ z"]
    by (simp add: is_chr_def chr_dot_def)
qed

lemma article_at_end_has_article: "article_at_end a n name = has_article a n name"
  unfolding article_at_end_def has_article_def re_search_def p_article_end_def last_n_def
  by (rule search_Plus_after) (rule mt_article)

lemma mt_dot_ahead: "(mt [Plus any_char, Ahead (is_chr chr_dot)] s \<noteq> None) = dot_ahead s"
proof (induction s)
  case Nil
  show ?case by simp
next
  case (Cons c s)
  have ac: "any_char c = (c \<noteq> CHR 0x0A)" by (simp add: any_char_def)
  have "(mt [Ahead (is_chr chr_dot)] s \<noteq> None) = prefix ''.'' s"
    by (cases s) (auto simp: is_chr_def chr_dot_def)
  then show ?case unfolding mt_Plus_Cons dot_ahead.simps ac using Cons by blast
qed

lemma mt_pattern2:
  "(mt pattern2 (c # s) \<noteq> None)
     = (c = CHR ''_'' \<and> (mt pattern2 s \<noteq> None \<or> (s \<noteq> [] \<and> is_space (hd s) \<and> dot_ahead (tl s))))"
proof -
  have "(mt [One is_space, Plus any_char, Ahead (is_chr chr_dot)] s \<noteq> None)
          = (s \<noteq> [] \<and> is_space (hd s) \<and> dot_ahead (tl s))"
    using mt_dot_ahead by (cases s) auto
  then show ?thesis
    unfolding pattern2_def mt_Plus_Cons by (auto simp: is_chr_def chr_underscore_def)
qed

lemma search_pattern2: "(search pattern2 s \<noteq> None) = has_subtitle s"
proof (induction s)
  case Nil
  show ?case by (simp add: pattern2_def)
next
  case (Cons a s)
  show ?case
  proof (cases s)
    case Nil
    have "mt pattern2 [] = None" by (simp add: pattern2_def)
    then show ?thesis unfolding Nil search_Cons mt_pattern2 by simp
  next
    case (Cons b t)
    show ?thesis
      unfolding Cons search_Cons [of pattern2 a] mt_pattern2 [of a]
      using Cons.IH mt_search [of pattern2 "b # t"] unfolding Cons by auto
  qed
qed


text \<open>Each step of the rewrite either leaves the name as it is or makes it shorter.\<close>

lemma takes_one_pattern1: "mt pattern1 t = Some r \<Longrightarrow> length r < length t"
  unfolding pattern1_def by (rule takes_one_LazyPlus)

lemma takes_one_pattern2: "mt pattern2 t = Some r \<Longrightarrow> length r < length t"
  unfolding pattern2_def by (rule takes_one_Plus)

lemma takes_one_article_cut: "mt (p_article_cut a) t = Some r \<Longrightarrow> length r < length t"
  unfolding p_article_cut_def by (rule takes_one_One)

lemma noauthor_of_length:
  "length (noauthor_of name) \<le> length name"
  "has_separator name \<Longrightarrow> length (noauthor_of name) < length name"
  unfolding noauthor_of_def
  using sub_first_length [OF takes_one_pattern1, where s = name] search_pattern1 [of name] by blast+

lemma mt_article_cut:
  "mt (p_article_cut a) t = Some r \<Longrightarrow> length t = length r + length a + 3"
proof -
  assume m: "mt (p_article_cut a) t = Some r"
  then obtain c1 t1 where t: "t = c1 # t1" by (cases t) (auto simp: p_article_cut_def)
  with m obtain c2 t2 where t1: "t1 = c2 # t2"
    by (cases t1) (auto simp: p_article_cut_def split: if_splits)
  from m t t1 have "mt (lit a @ [One (is_chr chr_dot)]) t2 = Some r"
    by (auto simp: p_article_cut_def split: if_splits)
  from mt_lit_split [OF this] obtain t3 where t2: "t2 = a @ t3"
    and m3: "mt [One (is_chr chr_dot)] t3 = Some r" by blast
  from m3 have "length t3 = length r + 1" by (cases t3) (auto split: if_splits)
  then show ?thesis using t t1 t2 by simp
qed

lemma cut_article_length:
  "search (p_article_cut a) name \<noteq> None \<Longrightarrow>
   length (cut_article a name) + length a + 2 \<le> length name"
proof (induction name)
  case Nil
  then show ?case by (simp add: p_article_cut_def)
next
  case (Cons c cs)
  show ?case
  proof (cases "mt (p_article_cut a) (c # cs)")
    case None
    then have "search (p_article_cut a) cs \<noteq> None" using Cons.prems by (auto split: option.splits)
    from Cons.IH [OF this] show ?thesis using None by (simp add: cut_article_def)
  next
    case (Some rest)
    have l: "length (c # cs) = length rest + length a + 3" using Some by (rule mt_article_cut)
    have "length (sub_all (p_article_cut a) ''.'' rest) \<le> length rest"
      by (rule sub_all_length [OF takes_one_article_cut])
    then show ?thesis using Some l by (simp add: cut_article_def)
  qed
qed

lemma article_here:
  "mt (p_article_cut a) ('', '' @ a @ ''.'' @ v) = Some v"
proof -
  have "mt (lit a @ [One (is_chr chr_dot)]) (a @ ''.'' @ v) = Some v"
    unfolding mt_lit by (simp add: is_chr_same chr_dot_def [symmetric])
  then show ?thesis by (simp add: p_article_cut_def is_chr_def chr_comma_def)
qed

lemma article_at_end_cut:
  assumes "article_at_end a n name"
  shows "length (a @ '' '' @ sub_first pattern2 [] (cut_article a name)) < length name"
proof -
  from article_at_end_occurs [OF assms] obtain u v where n: "name = u @ '', '' @ a @ ''.'' @ v"
    by blast
  have "mt (p_article_cut a) ('', '' @ a @ ''.'' @ v) \<noteq> None" by (simp only: article_here) simp
  then have "search (p_article_cut a) name \<noteq> None" unfolding n by (rule search_prefix)
  from cut_article_length [OF this]
  have "length (cut_article a name) + length a + 2 \<le> length name" .
  moreover have "length (sub_first pattern2 [] (cut_article a name)) \<le> length (cut_article a name)"
    by (rule sub_first_length [OF takes_one_pattern2])
  ultimately show ?thesis by simp
qed

lemma title_of_length:
  "length (title_of name) \<le> length name"
  "has_article ''A'' 9 name \<or> has_article ''An'' 10 name \<or> has_article ''The'' 11 name
     \<or> has_subtitle name \<Longrightarrow> length (title_of name) < length name"
proof -
  have art: "length (a @ '' '' @ sub_first pattern2 [] (cut_article a name)) < length name"
    if "has_article a n name" for a n
    using that article_at_end_cut [of a n name] by (simp add: article_at_end_has_article)
  have sub: "length (sub_first pattern2 [] name) \<le> length name"
    by (rule sub_first_length [OF takes_one_pattern2])
  have sub': "has_subtitle name \<Longrightarrow> length (sub_first pattern2 [] name) < length name"
    using sub_first_length(2) [OF takes_one_pattern2, where s = name] search_pattern2 [of name] by blast
  show "length (title_of name) \<le> length name"
    using art [of "''A''" 9] art [of "''An''" 10] art [of "''The''" 11] sub
    by (auto simp: title_of_def article_at_end_has_article)
  show "length (title_of name) < length name"
    if "has_article ''A'' 9 name \<or> has_article ''An'' 10 name \<or> has_article ''The'' 11 name
     \<or> has_subtitle name"
    using that art [of "''A''" 9] art [of "''An''" 10] art [of "''The''" 11] sub'
    by (auto simp: title_of_def article_at_end_has_article)
qed

text \<open>The names that the rewrite returns as they are.\<close>

lemma strip_to_title_settled: "(strip_to_title name = Inr name) = settled name"
proof
  assume st: "settled name"
  then have "search pattern1 name = None"
    using search_pattern1 [of name] unfolding settled_def by blast
  then have n: "noauthor_of name = name" by (simp add: noauthor_of_def sub_first_none)
  have "search pattern2 name = None"
    using st search_pattern2 [of name] unfolding settled_def by blast
  then have "sub_first pattern2 [] name = name" by (rule sub_first_none)
  then have t: "title_of name = name"
    using st by (simp add: title_of_def article_at_end_has_article settled_def)
  show "strip_to_title name = Inr name"
    using st by (simp add: strip_to_title_def n t settled_def chr_underscore_def)
next
  assume fixed: "strip_to_title name = Inr name"
  let ?new = "title_of (noauthor_of name)"
  have l1: "length ?new \<le> length (noauthor_of name)" by (rule title_of_length)
  have l2: "length (noauthor_of name) \<le> length name" by (rule noauthor_of_length)
  have ne: "?new \<noteq> []" using fixed by (auto simp: strip_to_title_def Let_def split: if_splits)
  have last: "last ?new \<noteq> chr_underscore"
  proof
    assume "last ?new = chr_underscore"
    then have "butlast ?new = name" using fixed ne by (simp add: strip_to_title_def Let_def)
    then have "length name = length ?new - 1" by (metis length_butlast)
    then show False using l1 l2 ne by (cases ?new) simp_all
  qed
  then have new: "?new = name" using fixed ne by (simp add: strip_to_title_def Let_def)
  have s1: "\<not> has_separator name"
  proof
    assume "has_separator name"
    then have "length (noauthor_of name) < length name" by (rule noauthor_of_length)
    then show False using l1 new by simp
  qed
  then have "search pattern1 name = None" using search_pattern1 [of name] by blast
  then have n: "noauthor_of name = name" by (simp add: noauthor_of_def sub_first_none)
  have s2: "\<not> (has_article ''A'' 9 name \<or> has_article ''An'' 10 name
              \<or> has_article ''The'' 11 name \<or> has_subtitle name)"
  proof
    assume "has_article ''A'' 9 name \<or> has_article ''An'' 10 name
              \<or> has_article ''The'' 11 name \<or> has_subtitle name"
    then have "length (title_of name) < length name" by (rule title_of_length)
    then show False using new n by simp
  qed
  show "settled name"
    using s1 s2 ne last new by (auto simp: settled_def chr_underscore_def)
qed




text \<open>For a name of the grammar whose segments are free of their delimiters, the name that
  is computed is the title with the article in front, and it is settled.\<close>

lemma strip_to_title_delimiter_free:
  assumes "delimiter_free authors title subtitle article ext"
  shows "strip_to_title (grammar_name authors title subtitle article ext)
           = Inr (stripped_name title article ext)
         \<and> strip_to_title (stripped_name title article ext)
           = Inr (stripped_name title article ext)"
proof -
  let ?sp = "case subtitle of None \<Rightarrow> [] | Some st \<Rightarrow> ''_ '' @ st"
  let ?ap = "case article of None \<Rightarrow> [] | Some a \<Rightarrow> '', '' @ a"
  let ?pre = "title @ ?sp"
  let ?body = "?pre @ ?ap @ ''.'' @ ext"
  let ?y = "stripped_name title article ext"
  from assms have authors: "authors \<noteq> []" "free_of ''-'' authors"
    and title: "title \<noteq> []" "free_of ''-_,'' title"
    and subtitle: "\<And>st. subtitle = Some st \<Longrightarrow> st \<noteq> [] \<and> free_of '','' st"
    and article: "\<And>a. article = Some a \<Longrightarrow> a \<in> {''A'', ''An'', ''The''}"
    and ext: "ext \<noteq> []" "length ext \<le> 4" "free_of ''-_,.'' ext"
    by (auto simp: delimiter_free_def)
  have t_hyphen: "chr_hyphen \<notin> set title" and t_underscore: "chr_underscore \<notin> set title"
    and t_comma: "chr_comma \<notin> set title"
    using free_of_set [OF title(2)] by (auto simp: chr_defs)
  have e_hyphen: "chr_hyphen \<notin> set ext" and e_underscore: "chr_underscore \<notin> set ext"
    and e_comma: "chr_comma \<notin> set ext" and e_dot: "chr_dot \<notin> set ext"
    using free_of_set [OF ext(3)] by (auto simp: chr_defs)
  have pre_comma: "chr_comma \<notin> set ?pre"
    using t_comma subtitle free_of_set [of "'',''"] by (auto simp: chr_defs split: option.splits)
  have pre_ne: "?pre \<noteq> []" using title(1) by simp
  have pre_last: "any_char (last ?pre)"
  proof (cases subtitle)
    case None
    then show ?thesis using title free_of_set [OF title(2), of "last title"] by simp
  next
    case (Some st)
    then have "st \<noteq> []" and "free_of '','' st" using subtitle by auto
    then show ?thesis using Some free_of_set [of "'',''" st "last st"] by simp
  qed
  have noauthor: "noauthor_of (grammar_name authors title subtitle article ext) = ?body"
    using noauthor_of_grammar [OF authors, of ?body] by (simp add: grammar_name_def)
  have no_subtitle: "sub_first pattern2 [] (?pre @ ''.'' @ ext) = title @ ''.'' @ ext"
  proof (cases subtitle)
    case None
    have "chr_underscore \<notin> set (title @ ''.'' @ ext)"
      using t_underscore e_underscore by (simp add: chr_defs)
    from no_underscore_no_subtitle [OF this] show ?thesis using None by simp
  next
    case (Some st)
    then have "st \<noteq> []" and "list_all any_char st"
      using subtitle by (auto simp: free_of_def list_all_iff)
    from subtitle_removed [OF t_underscore this e_dot] show ?thesis using Some by simp
  qed
  have titled: "title_of ?body = ?y"
  proof (cases article)
    case None
    have "chr_comma \<notin> set (?pre @ ''.'' @ ext)"
      using pre_comma e_comma by (simp add: chr_defs)
    then have "\<not> article_at_end a n (?pre @ ''.'' @ ext)" for a n
      by (rule no_comma_no_article)
    then show ?thesis using None no_subtitle by (simp add: title_of_def stripped_name_def)
  next
    case (Some a)
    then have a: "a \<in> {''A'', ''An'', ''The''}" using article by simp
    have body: "?body = ?pre @ '', '' @ a @ ''.'' @ ext" using Some by simp
    have cut: "cut_article a ?body = ?pre @ ''.'' @ ext"
      unfolding body by (rule cut_article_grammar [OF pre_comma e_comma])
    have absent: "\<not> article_at_end b n ?body" if "b \<in> {''A'', ''An'', ''The''}" "b \<noteq> a" for b n
      unfolding body using other_article_absent [OF pre_comma e_comma that(1) a that(2)] .
    have present: "article_at_end a n ?body" if "length a + 4 + length ext \<le> n" for n
      unfolding body by (rule article_present [OF pre_ne pre_last that])
    from a consider "a = ''A''" | "a = ''An''" | "a = ''The''" by auto
    then show ?thesis
    proof cases
      case 1
      have "article_at_end ''A'' 9 ?body" using present [of 9] ext(2) 1 by simp
      then show ?thesis
        using Some 1 cut no_subtitle by (simp add: title_of_def stripped_name_def)
    next
      case 2
      have "article_at_end ''An'' 10 ?body" using present [of 10] ext(2) 2 by simp
      moreover have "\<not> article_at_end ''A'' 9 ?body" using absent [of "''A''" 9] 2 by simp
      ultimately show ?thesis
        using Some 2 cut no_subtitle by (simp add: title_of_def stripped_name_def)
    next
      case 3
      have "article_at_end ''The'' 11 ?body" using present [of 11] ext(2) 3 by simp
      moreover have "\<not> article_at_end ''A'' 9 ?body" using absent [of "''A''" 9] 3 by simp
      moreover have "\<not> article_at_end ''An'' 10 ?body" using absent [of "''An''" 10] 3 by simp
      ultimately show ?thesis
        using Some 3 cut no_subtitle by (simp add: title_of_def stripped_name_def)
    qed
  qed
  have y_ne: "?y \<noteq> []" using title(1) by (simp add: stripped_name_def)
  have y_last: "last ?y = last ext" using ext(1) by (simp add: stripped_name_def)
  have "last ext \<in> set ext" using ext(1) by simp
  then have y_end: "last ?y \<noteq> chr_underscore" using e_underscore y_last by auto
  have first: "strip_to_title (grammar_name authors title subtitle article ext) = Inr ?y"
    using noauthor titled y_ne y_end by (simp add: strip_to_title_def)
  have y_hyphen: "chr_hyphen \<notin> set ?y" and y_comma: "chr_comma \<notin> set ?y"
    and y_underscore: "chr_underscore \<notin> set ?y"
    using t_hyphen t_comma t_underscore e_hyphen e_comma e_underscore article
    by (auto simp: stripped_name_def chr_defs split: option.splits)
  from strip_to_title_plain [OF y_ne y_hyphen y_comma y_underscore] first
  show ?thesis by simp
qed

lemma delimiter_free_settled:
  "delimiter_free authors title subtitle article ext \<Longrightarrow> settled (stripped_name title article ext)"
  using strip_to_title_delimiter_free [of authors title subtitle article ext]
    strip_to_title_settled [of "stripped_name title article ext"] by blast

text \<open>Names with a hyphen in the authors or the title, commas in the title or an article of
  another language are rewritten to a settled name; a title that ends with two articles
  is not.\<close>

lemma strip_to_title_examples:
  "strip_to_title ''Saint-Exupery, Antoine de - Le Petit Prince.epub'' = Inr ''Le Petit Prince.epub''
   \<and> settled ''Le Petit Prince.epub''
   \<and> strip_to_title ''Heller, Joseph - Catch-22.epub'' = Inr ''Catch-22.epub''
   \<and> settled ''Catch-22.epub''
   \<and> strip_to_title ''Gilbert, Elizabeth - Eat, Pray, Love.epub'' = Inr ''Eat, Pray, Love.epub''
   \<and> settled ''Eat, Pray, Love.epub''
   \<and> strip_to_title ''Smith - Casa, El.epub'' = Inr ''Casa, El.epub''
   \<and> settled ''Casa, El.epub''
   \<and> strip_to_title ''Doe - Title, The, The.epub'' = Inr ''The Title, The.epub''
   \<and> \<not> settled ''The Title, The.epub''
   \<and> strip_to_title ''The Title, The.epub'' = Inr ''The The Title.epub''"
  by code_simp

end
